theory Spec2Isabelle
  imports Complex_Main "HOL-Library.AList" "HOL-Library.Log_Nat"
begin

section \<open>JavaScript values\<close>

text \<open>
  A JavaScript string is a sequence of UTF-16 code units; \<open>length\<close>, \<open>substring\<close> and the
  regular expressions of \<^verbatim>\<open>src/lib/rag.ts\<close> (none has the \<^verbatim>\<open>u\<close> flag) all count
  code units. The Hangul syllables of the source are single code units, written here by
  their code.
\<close>

type_synonym jsstring = "nat list"

definition ascii :: "string \<Rightarrow> jsstring" where
  "ascii s = map of_char s"

text \<open>Values of type \<^verbatim>\<open>any\<close> carried in a property map; the code only asks whether
  one is a string.\<close>

datatype jsany = JString jsstring | JNumber real | JBoolean bool | JNull

text \<open>\<^verbatim>\<open>a || b\<close> on an optional string: the empty string and \<^verbatim>\<open>undefined\<close> are falsy.\<close>

definition or_else :: "jsstring option \<Rightarrow> jsstring \<Rightarrow> jsstring" where
  "or_else a b = (case a of None \<Rightarrow> b | Some s \<Rightarrow> if s = [] then b else s)"

definition truthy :: "jsstring option \<Rightarrow> bool" where
  "truthy a = (case a of None \<Rightarrow> False | Some s \<Rightarrow> s \<noteq> [])"

text \<open>\<^verbatim>\<open>String.prototype.substring(start, end)\<close> on non-negative integers: both indices
  are clamped to the length and swapped when out of order.\<close>

definition substring :: "jsstring \<Rightarrow> nat \<Rightarrow> nat \<Rightarrow> jsstring" where
  "substring s a b =
     (let a' = min a (length s); b' = min b (length s);
          lo = min a' b'; hi = max a' b'
      in take (hi - lo) (drop lo s))"

text \<open>Decimal rendering of a non-negative integer, as a template literal prints it.\<close>

fun decimal :: "nat \<Rightarrow> jsstring" where
  "decimal n = (if n < 10 then [48 + n] else decimal (n div 10) @ [48 + n mod 10])"

declare decimal.simps [simp del]

section \<open>Data model\<close>

record Metadata =
  title :: jsstring
  pageId :: jsstring
  lastModified :: jsstring
  url :: "jsstring option"
  properties :: "(jsstring \<times> jsany) list option"
  chunkIndex :: "nat option"
  totalChunks :: "nat option"

record DocumentChunk =
  id :: jsstring
  content :: jsstring
  metadata :: Metadata
  embedding :: "real list option"

text \<open>
  The fields of a page object that the code reads. A property of the page is kept as its
  \<^verbatim>\<open>type\<close> and the \<^verbatim>\<open>start\<close> and \<^verbatim>\<open>end\<close> of its \<^verbatim>\<open>date\<close>; \<open>page_content\<close> is the
  pre-flattened \<^verbatim>\<open>content\<close>, \<open>page_title\<close> the plain text of the first title fragment
  and \<open>page_metadata_properties\<close> the map \<^verbatim>\<open>page.metadata.properties\<close>.
\<close>

record PageProperty =
  ptype :: jsstring
  date_start :: "jsstring option"
  date_end :: "jsstring option"

record Page =
  page_id :: "jsstring option"
  page_content :: "jsstring option"
  page_title :: "jsstring option"
  last_edited_time :: "jsstring option"
  page_url :: "jsstring option"
  page_metadata_properties :: "(jsstring \<times> jsany) list option"
  page_properties :: "(jsstring \<times> PageProperty) list option"

section \<open>Chunker: \<^verbatim>\<open>splitIntoChunks\<close>\<close>

definition chunkSize :: nat where
  "chunkSize = 1000"

definition overlap :: nat where
  "overlap = 200"

text \<open>
  The loop over \<^verbatim>\<open>Object.entries(page.properties)\<close> that copies the date-typed
  properties into \<^verbatim>\<open>metadata.properties\<close>; an assignment to an object key replaces the
  value of a key already present and appends a new key otherwise. (An object lists keys
  that are array indices first; the order of the entries plays no part below.)
\<close>

fun dateProperties ::
  "(jsstring \<times> PageProperty) list \<Rightarrow> (jsstring \<times> jsany) list \<Rightarrow> (jsstring \<times> jsany) list" where
  "dateProperties [] acc = acc"
| "dateProperties ((key, prop) # rest) acc =
     (if ptype prop = ascii ''date'' \<and> truthy (date_start prop)
      then let acc1 = AList.update key (JString (the (date_start prop))) acc;
               acc2 = (if truthy (date_end prop)
                       then AList.update (key @ ascii ''_end'') (JString (the (date_end prop))) acc1
                       else acc1)
           in dateProperties rest acc2
      else dateProperties rest acc)"

text \<open>The metadata template; \<open>nowISO\<close> stands for \<^verbatim>\<open>new Date().toISOString()\<close>.\<close>

definition pageMetadata :: "jsstring \<Rightarrow> jsstring \<Rightarrow> Page \<Rightarrow> Metadata" where
  "pageMetadata nowISO ttl page =
     \<lparr> title = ttl,
       pageId = or_else (page_id page) (ascii ''unknown''),
       lastModified = or_else (last_edited_time page) nowISO,
       url = page_url page,
       properties =
         Some (case page_metadata_properties page of
                 Some ps \<Rightarrow> ps
               | None \<Rightarrow> (case page_properties page of
                            Some pp \<Rightarrow> dateProperties pp []
                          | None \<Rightarrow> [])),
       chunkIndex = None,
       totalChunks = None \<rparr>"

definition mkChunk :: "Metadata \<Rightarrow> Page \<Rightarrow> nat \<Rightarrow> nat \<Rightarrow> jsstring \<Rightarrow> DocumentChunk" where
  "mkChunk meta page idx tot text =
     \<lparr> id = or_else (page_id page) (ascii ''chunk'') @ ascii ''-'' @ decimal idx,
       content = text,
       metadata = meta \<lparr> chunkIndex := Some idx, totalChunks := Some tot \<rparr>,
       embedding = None \<rparr>"

text \<open>\<^verbatim>\<open>Math.ceil(a / b)\<close> on non-negative integers with \<open>b > 0\<close>.\<close>

definition ceil_div :: "nat \<Rightarrow> nat \<Rightarrow> nat" where
  "ceil_div a b = (a + b - 1) div b"

text \<open>The \<^verbatim>\<open>while (startIndex < content.length)\<close> loop.\<close>

function splitLoop ::
  "Metadata \<Rightarrow> Page \<Rightarrow> jsstring \<Rightarrow> nat \<Rightarrow> nat \<Rightarrow> DocumentChunk list \<Rightarrow> DocumentChunk list" where
  "splitLoop meta page text startIndex idx chunks =
     (if startIndex < length text
      then let endIndex = min (startIndex + chunkSize) (length text);
               chunkContent = substring text startIndex endIndex
           in splitLoop meta page text (startIndex + (chunkSize - overlap)) (idx + 1)
                (chunks @ [mkChunk meta page idx
                             (ceil_div (length text) (chunkSize - overlap)) chunkContent])
      else chunks)"
  by pat_completeness auto
termination
  by (relation "measure (\<lambda>(meta, page, text, startIndex, idx, chunks). length text - startIndex)")
     (auto simp: chunkSize_def overlap_def)

declare splitLoop.simps [simp del]

definition splitIntoChunks :: "jsstring \<Rightarrow> jsstring \<Rightarrow> jsstring \<Rightarrow> Page \<Rightarrow> DocumentChunk list" where
  "splitIntoChunks nowISO text ttl page =
     (let meta = pageMetadata nowISO ttl page
      in if length text \<le> chunkSize
         then [mkChunk meta page 0 1 text]
         else splitLoop meta page text 0 0 [])"

text \<open>The window that starts at offset \<open>800 * j\<close>, for the statements about the loop.\<close>

definition window :: "jsstring \<Rightarrow> nat \<Rightarrow> jsstring" where
  "window text j = take chunkSize (drop ((chunkSize - overlap) * j) text)"

text \<open>A page as the chat route builds it, for the concrete instances below.\<close>

definition examplePage :: Page where
  "examplePage =
     \<lparr> page_id = Some (ascii ''notion-page-0''),
       page_content = Some (ascii ''hello''),
       page_title = Some (ascii ''t''),
       last_edited_time = Some (ascii ''2025-06-27T00:00:00.000Z''),
       page_url = Some (ascii ''https://notion.so/p''),
       page_metadata_properties = Some [],
       page_properties = None \<rparr>"

section \<open>Numbers\<close>

text \<open>
  A JavaScript number is an IEEE 754 double. A finite double is modelled by its value, a
  real number \<open>m * 2^e\<close> with \<open>|m| < 2^53\<close> and \<open>-1074 \<le> e \<le> 971\<close>; the three special
  values are constructors of their own. The two zeros are the one value \<open>Num 0\<close>: they
  differ only as divisors, and the one divisor of the program, a product of two square
  roots, is never the negative zero.
\<close>

datatype jsnum = Num real | PosInf | NegInf | NaN

text \<open>
  Every arithmetic operation of the language gives the exact result rounded to the nearest
  double, a tie to the even mantissa, and an infinity where the rounded magnitude reaches
  \<open>2^1024\<close>. \<open>ilog2 x\<close> is the binade \<open>\<lfloor>log\<^sub>2 |x|\<rfloor>\<close> of a non-zero \<open>x\<close>, \<open>ulpExp x\<close> the
  exponent of the spacing of the doubles there (52 below the binade, and \<open>-1074\<close> in the
  subnormal range), \<open>rne\<close> rounds to the nearest integer, and \<open>fl\<close> is the rounding.
\<close>

definition ilog2 :: "real \<Rightarrow> int" where
  "ilog2 x = (if 1 \<le> \<bar>x\<bar> then bitlen \<lfloor>\<bar>x\<bar>\<rfloor> - 1 else - bitlen (\<lceil>1 / \<bar>x\<bar>\<rceil> - 1))"

definition rne :: "real \<Rightarrow> int" where
  "rne y = (let f = \<lfloor>y\<rfloor>; d = y - of_int f
            in if d < 1 / 2 then f else if 1 / 2 < d then f + 1
               else if even f then f else f + 1)"

definition ulpExp :: "real \<Rightarrow> int" where
  "ulpExp x = max (ilog2 x - 52) (- 1074)"

definition fl :: "real \<Rightarrow> jsnum" where
  "fl x = (let e = ulpExp x;
               v = of_int (rne (x / 2 powi e)) * 2 powi e
           in if 2 ^ 1024 \<le> v then PosInf
              else if v \<le> - (2 ^ 1024) then NegInf
              else Num v)"

text \<open>\<^verbatim>\<open>x + y\<close>.\<close>

fun js_add :: "jsnum \<Rightarrow> jsnum \<Rightarrow> jsnum" where
  "js_add (Num a) (Num b) = fl (a + b)"
| "js_add NaN y = NaN"
| "js_add x NaN = NaN"
| "js_add PosInf NegInf = NaN"
| "js_add NegInf PosInf = NaN"
| "js_add PosInf y = PosInf"
| "js_add NegInf y = NegInf"
| "js_add (Num a) PosInf = PosInf"
| "js_add (Num a) NegInf = NegInf"

text \<open>\<^verbatim>\<open>x - y\<close>.\<close>

fun js_minus :: "jsnum \<Rightarrow> jsnum \<Rightarrow> jsnum" where
  "js_minus (Num a) (Num b) = fl (a - b)"
| "js_minus NaN y = NaN"
| "js_minus x NaN = NaN"
| "js_minus PosInf PosInf = NaN"
| "js_minus NegInf NegInf = NaN"
| "js_minus PosInf y = PosInf"
| "js_minus NegInf y = NegInf"
| "js_minus (Num a) PosInf = NegInf"
| "js_minus (Num a) NegInf = PosInf"

text \<open>\<^verbatim>\<open>x * y\<close>.\<close>

fun js_mul :: "jsnum \<Rightarrow> jsnum \<Rightarrow> jsnum" where
  "js_mul (Num a) (Num b) = fl (a * b)"
| "js_mul NaN y = NaN"
| "js_mul x NaN = NaN"
| "js_mul PosInf (Num b) = (if b = 0 then NaN else if 0 < b then PosInf else NegInf)"
| "js_mul NegInf (Num b) = (if b = 0 then NaN else if 0 < b then NegInf else PosInf)"
| "js_mul (Num a) PosInf = (if a = 0 then NaN else if 0 < a then PosInf else NegInf)"
| "js_mul (Num a) NegInf = (if a = 0 then NaN else if 0 < a then NegInf else PosInf)"
| "js_mul PosInf PosInf = PosInf"
| "js_mul PosInf NegInf = NegInf"
| "js_mul NegInf PosInf = NegInf"
| "js_mul NegInf NegInf = PosInf"

text \<open>\<^verbatim>\<open>x / y\<close>, a zero divisor being the positive zero.\<close>

fun js_divide :: "jsnum \<Rightarrow> jsnum \<Rightarrow> jsnum" where
  "js_divide (Num a) (Num b) =
     (if b = 0 then (if a = 0 then NaN else if 0 < a then PosInf else NegInf)
      else fl (a / b))"
| "js_divide NaN y = NaN"
| "js_divide x NaN = NaN"
| "js_divide (Num a) PosInf = Num 0"
| "js_divide (Num a) NegInf = Num 0"
| "js_divide PosInf (Num b) = (if 0 \<le> b then PosInf else NegInf)"
| "js_divide NegInf (Num b) = (if 0 \<le> b then NegInf else PosInf)"
| "js_divide PosInf PosInf = NaN"
| "js_divide PosInf NegInf = NaN"
| "js_divide NegInf PosInf = NaN"
| "js_divide NegInf NegInf = NaN"

text \<open>\<^verbatim>\<open>Math.sqrt(x)\<close>, the correctly rounded square root that the engines compute.\<close>

fun js_sqrt :: "jsnum \<Rightarrow> jsnum" where
  "js_sqrt (Num a) = (if a < 0 then NaN else fl (sqrt a))"
| "js_sqrt PosInf = PosInf"
| "js_sqrt NegInf = NaN"
| "js_sqrt NaN = NaN"

text \<open>\<^verbatim>\<open>x * c\<close> for a decimal literal \<open>c\<close> of the source: the literal denotes the double
  nearest to it.\<close>

definition js_times :: "jsnum \<Rightarrow> real \<Rightarrow> jsnum" where
  "js_times x c = js_mul x (fl c)"

text \<open>\<^verbatim>\<open>x >= y\<close>: false as soon as one side is \<^verbatim>\<open>NaN\<close>.\<close>

fun js_ge :: "jsnum \<Rightarrow> jsnum \<Rightarrow> bool" where
  "js_ge (Num a) (Num b) = (b \<le> a)"
| "js_ge NaN y = False"
| "js_ge x NaN = False"
| "js_ge PosInf y = True"
| "js_ge x NegInf = True"
| "js_ge x PosInf = False"
| "js_ge NegInf y = False"

text \<open>\<^verbatim>\<open>x > 0\<close>, as a sort reads the result of its comparator.\<close>

fun js_positive :: "jsnum \<Rightarrow> bool" where
  "js_positive (Num r) = (0 < r)"
| "js_positive PosInf = True"
| "js_positive NegInf = False"
| "js_positive NaN = False"

text \<open>
  For the proofs: the multiples of the least positive double \<open>2^-1074\<close>, which all doubles
  are, and the two factors \<open>1 + 2^-53\<close> and \<open>1 - 2^-53\<close> between which one rounding moves a
  number of the normal range.
\<close>

definition onGrid :: "real \<Rightarrow> bool" where
  "onGrid v = (\<exists>k :: int. v = real_of_int k / 2 ^ 1074)"

definition gridNum :: "jsnum \<Rightarrow> bool" where
  "gridNum x = (case x of Num v \<Rightarrow> onGrid v | _ \<Rightarrow> True)"

definition rU :: real where
  "rU = 1 + 1 / 2 ^ 53"

definition rL :: real where
  "rL = 1 - 1 / 2 ^ 53"

section \<open>Cosine similarity\<close>

function cosLoop ::
  "real list \<Rightarrow> real list \<Rightarrow> nat \<Rightarrow> jsnum \<times> jsnum \<times> jsnum \<Rightarrow> jsnum \<times> jsnum \<times> jsnum" where
  "cosLoop a b i (dotProduct, normA, normB) =
     (if i < length a
      then cosLoop a b (i + 1)
             (js_add dotProduct (js_mul (Num (a ! i)) (Num (b ! i))),
              js_add normA (js_mul (Num (a ! i)) (Num (a ! i))),
              js_add normB (js_mul (Num (b ! i)) (Num (b ! i))))
      else (dotProduct, normA, normB))"
  by pat_completeness auto
termination
  by (relation "measure (\<lambda>(a, b, i, acc). length a - i)") auto

declare cosLoop.simps [simp del]

text \<open>The vectors hold finite doubles, by their values. The loop reads \<open>b ! i\<close> only for
  \<open>i < length a = length b\<close>.\<close>

definition cosineSimilarity :: "real list \<Rightarrow> real list \<Rightarrow> jsnum" where
  "cosineSimilarity a b =
     (if length a \<noteq> length b then Num 0
      else case cosLoop a b 0 (Num 0, Num 0, Num 0) of
             (dotProduct, normA, normB) \<Rightarrow>
               js_divide dotProduct (js_mul (js_sqrt normA) (js_sqrt normB)))"

text \<open>For the proofs: one accumulator of the loop, run over the pairs it multiplies, and
  the exact sums it approximates.\<close>

fun accum :: "jsnum \<Rightarrow> (real \<times> real) list \<Rightarrow> jsnum" where
  "accum acc [] = acc"
| "accum acc ((x, y) # ps) = accum (js_add acc (js_mul (Num x) (Num y))) ps"

definition prodSum :: "(real \<times> real) list \<Rightarrow> real" where
  "prodSum ps = sum_list (map (\<lambda>(x, y). x * y) ps)"

definition absSum :: "(real \<times> real) list \<Rightarrow> real" where
  "absSum ps = sum_list (map (\<lambda>(x, y). \<bar>x * y\<bar>) ps)"

definition inRange :: "real \<Rightarrow> bool" where
  "inRange x = (x = 0 \<or> (1 / 2 ^ 500 \<le> \<bar>x\<bar> \<and> \<bar>x\<bar> \<le> 2 ^ 500))"

section \<open>Date extraction\<close>

text \<open>
  What the host supplies for dates. A \<^verbatim>\<open>Date\<close> is its time value in milliseconds.
  \<open>newDate y m d\<close> is \<^verbatim>\<open>new Date(y, m, d)\<close> (local time, month from 0),
  \<open>parseDate s\<close> is \<^verbatim>\<open>new Date(s)\<close> with \<open>None\<close> for an invalid date, and
  \<open>getFullYear\<close> is the local year of a time value.
\<close>

record DateEnv =
  newDate :: "int \<Rightarrow> int \<Rightarrow> int \<Rightarrow> int"
  parseDate :: "jsstring \<Rightarrow> int option"
  getFullYear :: "int \<Rightarrow> int"

definition isDigit :: "nat \<Rightarrow> bool" where
  "isDigit c = (48 \<le> c \<and> c \<le> 57)"

text \<open>The class \<^verbatim>\<open>\s\<close>: white space and line terminators.\<close>

definition isSpace :: "nat \<Rightarrow> bool" where
  "isSpace c = (c \<in> {9, 10, 11, 12, 13, 32, 160, 5760, 8232, 8233, 8239, 8287, 12288, 65279}
                \<or> (8192 \<le> c \<and> c \<le> 8202))"

text \<open>The three separator classes of the long-form pattern: the unit marker (code units
  45380, 50900, 51068 for year, month, day), a full stop, or white space.\<close>

definition sepYear :: "nat \<Rightarrow> bool" where
  "sepYear c = (c = 45380 \<or> c = 46 \<or> isSpace c)"

definition sepMonth :: "nat \<Rightarrow> bool" where
  "sepMonth c = (c = 50900 \<or> c = 46 \<or> isSpace c)"

definition sepDay :: "nat \<Rightarrow> bool" where
  "sepDay c = (c = 51068 \<or> c = 46 \<or> isSpace c)"

text \<open>\<^verbatim>\<open>parseInt\<close> on a string of decimal digits.\<close>

definition parseInt :: "jsstring \<Rightarrow> int" where
  "parseInt ds = int (foldl (\<lambda>n c. 10 * n + (c - 48)) 0 ds)"

text \<open>
  The long-form pattern, matched at the head of the string. A separator run is greedy and
  never gives a character back to advantage, since no separator is a digit. The month
  group takes two digits first and falls back to one when the rest then fails.
  \<open>koreanDay\<close> matches the day group and the trailing separators; the result holds the
  captured digits and the text after the match.
\<close>

definition koreanDay :: "jsstring \<Rightarrow> (jsstring \<times> jsstring) option" where
  "koreanDay s =
     (case s of
        [] \<Rightarrow> None
      | d1 # r \<Rightarrow>
          if \<not> isDigit d1 then None
          else (case r of
                  [] \<Rightarrow> Some ([d1], [])
                | d2 # r2 \<Rightarrow>
                    if isDigit d2 then Some ([d1, d2], dropWhile sepDay r2)
                    else Some ([d1], dropWhile sepDay r)))"

definition koreanMonthDay :: "jsstring \<Rightarrow> (jsstring \<times> jsstring \<times> jsstring) option" where
  "koreanMonthDay s =
     (case s of
        [] \<Rightarrow> None
      | d1 # r \<Rightarrow>
          if \<not> isDigit d1 then None
          else (case (case r of
                        [] \<Rightarrow> None
                      | d2 # r2 \<Rightarrow>
                          if isDigit d2
                          then map_option (\<lambda>(dd, rest). ([d1, d2], dd, rest))
                                 (koreanDay (dropWhile sepMonth r2))
                          else None) of
                  Some res \<Rightarrow> Some res
                | None \<Rightarrow>
                    map_option (\<lambda>(dd, rest). ([d1], dd, rest))
                      (koreanDay (dropWhile sepMonth r))))"

definition koreanMatch ::
  "jsstring \<Rightarrow> (jsstring \<times> jsstring \<times> jsstring \<times> jsstring) option" where
  "koreanMatch s =
     (case s of
        y1 # y2 # y3 # y4 # r \<Rightarrow>
          if isDigit y1 \<and> isDigit y2 \<and> isDigit y3 \<and> isDigit y4
          then map_option (\<lambda>(mm, dd, rest). ([y1, y2, y3, y4], mm, dd, rest))
                 (koreanMonthDay (dropWhile sepYear r))
          else None
      | _ \<Rightarrow> None)"

text \<open>The ISO pattern \<^verbatim>\<open>(\d{4})-(\d{2})-(\d{2})\<close>, matched at the head of the string.\<close>

definition isoMatch ::
  "jsstring \<Rightarrow> (jsstring \<times> jsstring \<times> jsstring \<times> jsstring) option" where
  "isoMatch s =
     (case s of
        y1 # y2 # y3 # y4 # h1 # m1 # m2 # h2 # d1 # d2 # rest \<Rightarrow>
          if isDigit y1 \<and> isDigit y2 \<and> isDigit y3 \<and> isDigit y4 \<and> h1 = 45
             \<and> isDigit m1 \<and> isDigit m2 \<and> h2 = 45 \<and> isDigit d1 \<and> isDigit d2
          then Some ([y1, y2, y3, y4], [m1, m2], [d1, d2], rest)
          else None
      | _ \<Rightarrow> None)"

text \<open>The body of both \<^verbatim>\<open>while\<close> loops: parse the three groups and keep the date
  when the range check passes.\<close>

definition acceptDate :: "DateEnv \<Rightarrow> jsstring \<Rightarrow> jsstring \<Rightarrow> jsstring \<Rightarrow> int list" where
  "acceptDate env ys ms ds =
     (let year = parseInt ys; month = parseInt ms - 1; day = parseInt ds
      in if 2020 \<le> year \<and> year \<le> 2030 \<and> 0 \<le> month \<and> month \<le> 11 \<and> 1 \<le> day \<and> day \<le> 31
         then [newDate env year month day] else [])"

lemma koreanDay_shorter: "koreanDay s = Some (dd, rest) \<Longrightarrow> length rest < length s"
  by (auto simp: koreanDay_def less_Suc_eq_le le_SucI length_dropWhile_le
           split: list.splits if_splits)

lemma koreanDay_dropWhile_shorter:
  assumes "koreanDay (dropWhile p u) = Some (dd, rest)"
  shows "length rest < length u"
proof -
  have "length rest < length (dropWhile p u)" using assms by (rule koreanDay_shorter)
  also have "\<dots> \<le> length u" by (rule length_dropWhile_le)
  finally show ?thesis .
qed

lemma koreanMonthDay_shorter:
  "koreanMonthDay s = Some (mm, dd, rest) \<Longrightarrow> length rest < length s"
  by (auto simp: koreanMonthDay_def less_Suc_eq_le simp del: dropWhile.simps
           split: list.splits if_splits option.splits
           dest!: koreanDay_dropWhile_shorter)

lemma koreanMatch_shorter:
  assumes "koreanMatch s = Some (ys, mm, dd, rest)"
  shows "length rest < length s"
proof -
  from assms obtain y1 y2 y3 y4 r where s: "s = y1 # y2 # y3 # y4 # r"
    and md: "koreanMonthDay (dropWhile sepYear r) = Some (mm, dd, rest)"
    by (auto simp: koreanMatch_def split: list.splits if_splits)
  have "length rest < length (dropWhile sepYear r)" using md by (rule koreanMonthDay_shorter)
  also have "\<dots> \<le> length r" by (rule length_dropWhile_le)
  finally show ?thesis using s by simp
qed

lemma isoMatch_shorter:
  "isoMatch s = Some (ys, mm, dd, rest) \<Longrightarrow> length rest < length s"
  by (auto simp: isoMatch_def split: list.splits if_splits)

text \<open>The two \<^verbatim>\<open>while ((match = regex.exec(content)) !== null)\<close> loops: with the
  \<^verbatim>\<open>g\<close> flag each search starts where the previous match ended and finds the leftmost
  match from there.\<close>

function koreanScan :: "DateEnv \<Rightarrow> jsstring \<Rightarrow> int list" where
  "koreanScan env s =
     (case s of
        [] \<Rightarrow> []
      | c # cs \<Rightarrow>
          (case koreanMatch s of
             Some (ys, ms, ds, rest) \<Rightarrow> acceptDate env ys ms ds @ koreanScan env rest
           | None \<Rightarrow> koreanScan env cs))"
  by pat_completeness auto
termination
  by (relation "measure (\<lambda>(env, s). length s)") (auto dest: koreanMatch_shorter)

function isoScan :: "DateEnv \<Rightarrow> jsstring \<Rightarrow> int list" where
  "isoScan env s =
     (case s of
        [] \<Rightarrow> []
      | c # cs \<Rightarrow>
          (case isoMatch s of
             Some (ys, ms, ds, rest) \<Rightarrow> acceptDate env ys ms ds @ isoScan env rest
           | None \<Rightarrow> isoScan env cs))"
  by pat_completeness auto
termination
  by (relation "measure (\<lambda>(env, s). length s)") (auto dest: isoMatch_shorter)

declare koreanScan.simps [simp del] isoScan.simps [simp del]

text \<open>\<^verbatim>\<open>String.prototype.includes\<close>.\<close>

fun str_includes :: "jsstring \<Rightarrow> jsstring \<Rightarrow> bool" where
  "str_includes [] pat = (pat = [])"
| "str_includes (c # cs) pat = (take (length pat) (c # cs) = pat \<or> str_includes cs pat)"

text \<open>\<^verbatim>\<open>toLowerCase\<close> on the letters A to Z. Outside ASCII the real function changes
  more code units, but it maps none of them to one of the letters d, a, t, e, so the test
  \<^verbatim>\<open>key.toLowerCase().includes('date')\<close> is the same.\<close>

definition toLowerCase :: "jsstring \<Rightarrow> jsstring" where
  "toLowerCase s = map (\<lambda>c. if 65 \<le> c \<and> c \<le> 90 then c + 32 else c) s"

definition isDateKey :: "jsstring \<Rightarrow> bool" where
  "isDateKey key = (str_includes (toLowerCase key) (ascii ''date'')
                    \<or> str_includes key [45216, 51676] \<or> str_includes key [51068, 51221])"

fun metadataDates :: "DateEnv \<Rightarrow> (jsstring \<times> jsany) list \<Rightarrow> int list" where
  "metadataDates env [] = []"
| "metadataDates env ((key, v) # rest) =
     (if isDateKey key
      then (case v of
              JString str \<Rightarrow>
                (case parseDate env str of
                   Some t \<Rightarrow> if 2020 \<le> getFullYear env t \<and> getFullYear env t \<le> 2030 then [t] else []
                 | None \<Rightarrow> [])
            | _ \<Rightarrow> [])
      else []) @ metadataDates env rest"

definition extractDatesFromChunk :: "DateEnv \<Rightarrow> DocumentChunk \<Rightarrow> int list" where
  "extractDatesFromChunk env c =
     koreanScan env (content c) @ isoScan env (content c)
     @ (case properties (metadata c) of None \<Rightarrow> [] | Some ps \<Rightarrow> metadataDates env ps)"

section \<open>A host in the UTC time zone\<close>

definition daysFromCivil :: "int \<Rightarrow> int \<Rightarrow> int \<Rightarrow> int" where
  "daysFromCivil y m d =
     (let y' = (if m \<le> 2 then y - 1 else y);
          era = y' div 400;
          yoe = y' - era * 400;
          doy = (153 * (if 2 < m then m - 3 else m + 9) + 2) div 5 + d - 1;
          doe = yoe * 365 + yoe div 4 - yoe div 100 + doy
      in era * 146097 + doe - 719468)"

definition yearFromDays :: "int \<Rightarrow> int" where
  "yearFromDays z0 =
     (let z = z0 + 719468;
          era = z div 146097;
          doe = z - era * 146097;
          yoe = (doe - doe div 1460 + doe div 36524 - doe div 146096) div 365;
          doy = doe - (365 * yoe + yoe div 4 - yoe div 100);
          mp = (5 * doy + 2) div 153
      in yoe + era * 400 + (if mp < 10 then 0 else 1))"

definition msPerDay :: int where
  "msPerDay = 86400000"

definition utcNewDate :: "int \<Rightarrow> int \<Rightarrow> int \<Rightarrow> int" where
  "utcNewDate y m d = (daysFromCivil (y + m div 12) (m mod 12 + 1) 1 + (d - 1)) * msPerDay"

text \<open>\<^verbatim>\<open>new Date(string)\<close> on this host: the date-only ISO form gives midnight UTC of
  that day, with the month in 1 to 12 and the day in 1 to 31 (V8 reads a day beyond the
  end of the month as a day of the next month). The host reads other forms too, date-times
  among them; this one answers them with \<open>None\<close>, and the instances below give it no
  string to parse.\<close>

definition utcParseDate :: "jsstring \<Rightarrow> int option" where
  "utcParseDate s =
     (case isoMatch s of
        Some (ys, ms, ds, []) \<Rightarrow>
          if 1 \<le> parseInt ms \<and> parseInt ms \<le> 12 \<and> 1 \<le> parseInt ds \<and> parseInt ds \<le> 31
          then Some (utcNewDate (parseInt ys) (parseInt ms - 1) (parseInt ds))
          else None
      | _ \<Rightarrow> None)"

definition utcEnv :: DateEnv where
  "utcEnv = \<lparr> newDate = utcNewDate, parseDate = utcParseDate,
              getFullYear = (\<lambda>t. yearFromDays (t div msPerDay)) \<rparr>"

section \<open>Index store\<close>

datatype error = NotInitialized | ServiceError | TypeError

text \<open>
  The state of a \<^verbatim>\<open>RAGSystem\<close>. The \<^verbatim>\<open>Map\<close> of embeddings is an association list
  in insertion order with one entry per key; \<open>openai\<close> holds the API key once the client
  is initialised.
\<close>

record RAGSystem =
  chunks :: "DocumentChunk list"
  embeddings :: "(jsstring \<times> real list) list"
  openai :: "jsstring option"

definition newRAGSystem :: RAGSystem where
  "newRAGSystem = \<lparr> chunks = [], embeddings = [], openai = None \<rparr>"

definition initializeOpenAI :: "jsstring \<Rightarrow> RAGSystem \<Rightarrow> RAGSystem" where
  "initializeOpenAI apiKey st = st \<lparr> openai := Some apiKey \<rparr>"

text \<open>The embedding service: the texts of one request to the list \<^verbatim>\<open>response.data\<close> of
  vectors, or a failure.\<close>

type_synonym EmbeddingService = "jsstring list \<Rightarrow> error + real list list"

text \<open>\<open>render\<close> stands for the text that \<^verbatim>\<open>extractTextContent\<close> composes from the
  properties of a page without content.\<close>

definition extractTextContent :: "(Page \<Rightarrow> jsstring) \<Rightarrow> Page \<Rightarrow> jsstring" where
  "extractTextContent render p =
     (if truthy (page_content p) then the (page_content p) else render p)"

fun processLoop ::
  "(Page \<Rightarrow> jsstring) \<Rightarrow> jsstring \<Rightarrow> Page list \<Rightarrow> DocumentChunk list \<Rightarrow> DocumentChunk list" where
  "processLoop render nowISO [] acc = acc"
| "processLoop render nowISO (p # ps) acc =
     (let text = extractTextContent render p;
          ttl = or_else (page_title p) (ascii ''Untitled'');
          pageChunks = splitIntoChunks nowISO text ttl p
      in processLoop render nowISO ps (acc @ pageChunks))"

definition processNotionData ::
  "(Page \<Rightarrow> jsstring) \<Rightarrow> jsstring \<Rightarrow> Page list \<Rightarrow> RAGSystem \<Rightarrow> RAGSystem" where
  "processNotionData render nowISO notionData st =
     st \<lparr> chunks := processLoop render nowISO notionData [] \<rparr>"

text \<open>
  The callback of \<^verbatim>\<open>response.data.forEach\<close> in \<^verbatim>\<open>generateEmbeddings\<close>, run over the
  returned vectors from position \<open>index\<close>. \<open>batch[index]\<close> beyond the batch is
  \<^verbatim>\<open>undefined\<close> and reading its \<^verbatim>\<open>id\<close> throws; what was written before stays
  written.
\<close>

fun storeEmbeddings ::
  "nat \<Rightarrow> nat \<Rightarrow> nat \<Rightarrow> real list list \<Rightarrow> RAGSystem \<Rightarrow> error option \<times> RAGSystem" where
  "storeEmbeddings i n index [] st = (None, st)"
| "storeEmbeddings i n index (v # vs) st =
     (if index < n
      then let chunkId = id (chunks st ! (i + index));
               st1 = st \<lparr> embeddings := AList.update chunkId v (embeddings st) \<rparr>;
               st2 = st1 \<lparr> chunks := (chunks st1) [i + index := (chunks st1 ! (i + index)) \<lparr> embedding := Some v \<rparr>] \<rparr>
           in storeEmbeddings i n (index + 1) vs st2
      else (Some TypeError, st))"

lemma storeEmbeddings_length:
  "storeEmbeddings i n index vs st = (r, st') \<Longrightarrow> length (chunks st') = length (chunks st)"
  by (induction i n index vs st rule: storeEmbeddings.induct)
     (auto simp: Let_def split: if_splits)

definition batchSize :: nat where
  "batchSize = 100"

text \<open>The loop over the batches; the first failure ends the run with the state as it is.\<close>

function embedLoop :: "EmbeddingService \<Rightarrow> nat \<Rightarrow> RAGSystem \<Rightarrow> error option \<times> RAGSystem" where
  "embedLoop svc i st =
     (if i < length (chunks st)
      then let batch = take batchSize (drop i (chunks st));
               texts = map content batch
           in if openai st = None then (Some NotInitialized, st)
              else (case svc texts of
                      Inl e \<Rightarrow> (Some e, st)
                    | Inr vs \<Rightarrow>
                        (case storeEmbeddings i (length batch) 0 vs st of
                           (Some e, st') \<Rightarrow> (Some e, st')
                         | (None, st') \<Rightarrow> embedLoop svc (i + batchSize) st'))
      else (None, st))"
  by pat_completeness auto
termination
  by (relation "measure (\<lambda>(svc, i, st). length (chunks st) - i)")
     (auto simp: batchSize_def dest: storeEmbeddings_length [OF sym])

declare embedLoop.simps [simp del]

definition generateEmbeddings :: "EmbeddingService \<Rightarrow> RAGSystem \<Rightarrow> error option \<times> RAGSystem" where
  "generateEmbeddings svc st = embedLoop svc 0 st"

text \<open>
  The snapshot written by \<^verbatim>\<open>saveToLocalStorage\<close> and the file it goes to; a failed
  write is swallowed and leaves the file as it was. Serialising to JSON and parsing back
  is taken to return the same chunks and pairs.
\<close>

record Snapshot =
  snap_chunks :: "DocumentChunk list"
  snap_embeddings :: "(jsstring \<times> real list) list"
  lastUpdated :: jsstring

definition saveToLocalStorage :: "jsstring \<Rightarrow> bool \<Rightarrow> RAGSystem \<Rightarrow> Snapshot option \<Rightarrow> Snapshot option" where
  "saveToLocalStorage nowISO writeOk st file =
     (let data = \<lparr> snap_chunks = chunks st, snap_embeddings = embeddings st, lastUpdated = nowISO \<rparr>
      in if writeOk then Some data else file)"

text \<open>\<^verbatim>\<open>new Map(pairs)\<close> sets the pairs one after the other.\<close>

definition newMap :: "(jsstring \<times> real list) list \<Rightarrow> (jsstring \<times> real list) list" where
  "newMap pairs = foldl (\<lambda>m (k, v). AList.update k v m) [] pairs"

definition loadFromLocalStorage :: "Snapshot option \<Rightarrow> RAGSystem \<Rightarrow> bool \<times> RAGSystem" where
  "loadFromLocalStorage file st =
     (case file of
        None \<Rightarrow> (False, st)
      | Some data \<Rightarrow>
          (True, st \<lparr> chunks := snap_chunks data, embeddings := newMap (snap_embeddings data) \<rparr>))"

section \<open>Similarity search\<close>

record SearchResult =
  chunk :: DocumentChunk
  score :: jsnum

text \<open>
  The three keyword tests. Each pattern is an alternation of literal words, so
  \<^verbatim>\<open>test\<close> asks whether the query contains one of them; the \<^verbatim>\<open>i\<close> flag changes
  nothing, Hangul syllables having no case.
\<close>

definition isRecentQuery :: "jsstring \<Rightarrow> bool" where
  "isRecentQuery q = list_ex (str_includes q)
     [[52572, 44540], [50836, 51608], [51648, 44552], [50724, 45720], [51060, 48264], [44540, 47000]]"

definition isUpcomingQuery :: "jsstring \<Rightarrow> bool" where
  "isUpcomingQuery q = list_ex (str_includes q)
     [[45796, 44032, 50724, 45716], [50526, 51004, 47196], [48120, 47000], [50696, 51221], [44263]]"

definition isPastQuery :: "jsstring \<Rightarrow> bool" where
  "isPastQuery q = list_ex (str_includes q)
     [[51648, 45212], [44284, 44144], [51204, 50640], [51060, 51204]]"

definition sevenDays :: int where
  "sevenDays = 7 * 24 * 60 * 60 * 1000"

text \<open>The loop over \<^verbatim>\<open>chunkDates\<close> that sets \<^verbatim>\<open>dateMatches\<close>, with its \<^verbatim>\<open>break\<close>.\<close>

fun dateMatches :: "bool \<Rightarrow> bool \<Rightarrow> bool \<Rightarrow> int \<Rightarrow> int list \<Rightarrow> bool" where
  "dateMatches isRecent isUpcoming isPast now [] = False"
| "dateMatches isRecent isUpcoming isPast now (chunkDate # rest) =
     (if isRecent
      then (if now - sevenDays \<le> chunkDate \<and> chunkDate \<le> now + sevenDays then True
            else dateMatches isRecent isUpcoming isPast now rest)
      else if isUpcoming
      then (if now < chunkDate then True
            else dateMatches isRecent isUpcoming isPast now rest)
      else if isPast
      then (if chunkDate < now then True
            else dateMatches isRecent isUpcoming isPast now rest)
      else dateMatches isRecent isUpcoming isPast now rest)"

text \<open>
  The body of the loop over the chunks, for a chunk with the embedding \<open>e\<close>: the result
  it pushes, or \<open>None\<close> where it continues without pushing.
\<close>

definition scoreChunk ::
  "DateEnv \<Rightarrow> int \<Rightarrow> bool \<Rightarrow> bool \<Rightarrow> bool \<Rightarrow> real list \<Rightarrow> DocumentChunk \<Rightarrow> real list
   \<Rightarrow> SearchResult option" where
  "scoreChunk env now isRecent isUpcoming isPast queryEmbedding c e =
     (let similarity = cosineSimilarity queryEmbedding e
      in if isRecent \<or> isUpcoming \<or> isPast
         then let chunkDates = extractDatesFromChunk env c
              in if chunkDates \<noteq> []
                 then if \<not> dateMatches isRecent isUpcoming isPast now chunkDates
                      then if isRecent \<and> list_ex (\<lambda>d. getFullYear env d < 2024) chunkDates
                           then None
                           else Some \<lparr> chunk = c, score = js_times similarity (3 / 10) \<rparr>
                      else Some \<lparr> chunk = c, score = js_times similarity (12 / 10) \<rparr>
                 else Some \<lparr> chunk = c, score = js_times similarity (5 / 10) \<rparr>
         else Some \<lparr> chunk = c, score = similarity \<rparr>)"

fun searchLoop ::
  "DateEnv \<Rightarrow> int \<Rightarrow> bool \<Rightarrow> bool \<Rightarrow> bool \<Rightarrow> real list \<Rightarrow> DocumentChunk list
   \<Rightarrow> SearchResult list \<Rightarrow> SearchResult list" where
  "searchLoop env now isRecent isUpcoming isPast q [] similarities = similarities"
| "searchLoop env now isRecent isUpcoming isPast q (c # cs) similarities =
     (case embedding c of
        None \<Rightarrow> searchLoop env now isRecent isUpcoming isPast q cs similarities
      | Some e \<Rightarrow>
          (case scoreChunk env now isRecent isUpcoming isPast q c e of
             None \<Rightarrow> searchLoop env now isRecent isUpcoming isPast q cs similarities
           | Some r \<Rightarrow> searchLoop env now isRecent isUpcoming isPast q cs (similarities @ [r])))"

text \<open>
  \<^verbatim>\<open>sort((a, b) => b.score - a.score)\<close>. The sort is stable and takes a comparator
  result of \<^verbatim>\<open>NaN\<close> as zero, so it is modelled by a stable insertion sort: an element is
  moved behind a later one only where the comparator is positive. Where the comparator is
  a consistent order (no score is \<^verbatim>\<open>NaN\<close>), every stable sort returns this list;
  otherwise the language leaves the order to the implementation.
\<close>

definition compareFn :: "SearchResult \<Rightarrow> SearchResult \<Rightarrow> jsnum" where
  "compareFn a b = js_minus (score b) (score a)"

fun insertSorted :: "SearchResult \<Rightarrow> SearchResult list \<Rightarrow> SearchResult list" where
  "insertSorted x [] = [x]"
| "insertSorted x (y # ys) =
     (if js_positive (compareFn x y) then y # insertSorted x ys else x # y # ys)"

definition sortByScore :: "SearchResult list \<Rightarrow> SearchResult list" where
  "sortByScore xs = foldr insertSorted xs []"

text \<open>\<^verbatim>\<open>slice(0, topK)\<close> for an integer \<open>topK\<close>: a negative end counts from the end of
  the array.\<close>

definition slice0 :: "'a list \<Rightarrow> int \<Rightarrow> 'a list" where
  "slice0 xs k = (if k < 0 then take (nat (int (length xs) + k)) xs else take (nat k) xs)"

definition getQueryEmbedding :: "EmbeddingService \<Rightarrow> RAGSystem \<Rightarrow> jsstring \<Rightarrow> error + real list" where
  "getQueryEmbedding svc st query =
     (if openai st = None then Inl NotInitialized
      else case svc [query] of
             Inl e \<Rightarrow> Inl e
           | Inr [] \<Rightarrow> Inl TypeError
           | Inr (v # vs) \<Rightarrow> Inr v)"

definition searchSimilarChunks ::
  "DateEnv \<Rightarrow> EmbeddingService \<Rightarrow> int \<Rightarrow> RAGSystem \<Rightarrow> jsstring \<Rightarrow> int
   \<Rightarrow> error + SearchResult list" where
  "searchSimilarChunks env svc now st query topK =
     (case getQueryEmbedding svc st query of
        Inl e \<Rightarrow> Inl e
      | Inr queryEmbedding \<Rightarrow>
          Inr (slice0 (sortByScore
                 (searchLoop env now (isRecentQuery query) (isUpcomingQuery query)
                    (isPastQuery query) queryEmbedding (chunks st) []))
               topK))"

section \<open>Result formatter\<close>

text \<open>
  \<^verbatim>\<open>x.toFixed(1)\<close>. For a finite \<open>x\<close> below \<open>10^21\<close> in size the digits are those of
  the integer \<open>n\<close> nearest to \<open>10 * |x|\<close>, the larger one on a tie, with the point before
  the last digit. \<open>big\<close> stands for \<^verbatim>\<open>Number.prototype.toString\<close> on the larger numbers.
\<close>

definition toFixed1 :: "(real \<Rightarrow> jsstring) \<Rightarrow> jsnum \<Rightarrow> jsstring" where
  "toFixed1 big x =
     (case x of
        NaN \<Rightarrow> ascii ''NaN''
      | PosInf \<Rightarrow> ascii ''Infinity''
      | NegInf \<Rightarrow> ascii ''-Infinity''
      | Num r \<Rightarrow>
          (if r < 0 then ascii ''-'' else []) @
          (if 10 ^ 21 \<le> \<bar>r\<bar> then big \<bar>r\<bar>
           else let n = nat \<lfloor>10 * \<bar>r\<bar> + 1 / 2\<rfloor>
                in decimal (n div 10) @ ascii ''.'' @ decimal (n mod 10)))"

text \<open>The sentinel and the header, by code unit.\<close>

definition noResults :: jsstring where
  "noResults = [44288, 47144, 46108, 32, 51221, 48372, 47484, 32, 52286, 51012, 32, 49688, 32,
                50630, 49845, 45768, 45796, 46]"

definition header :: jsstring where
  "header = [45796, 51020, 51008, 32, 44288, 47144, 46108, 32, 51221, 48372, 46308, 51077,
             45768, 45796, 58, 10, 10]"

definition similarityLabel :: jsstring where
  "similarityLabel = [50976, 49324, 46020]"

text \<open>The callback of \<^verbatim>\<open>results.forEach\<close>, run from position \<open>index\<close> on the
  accumulated \<open>context\<close>.\<close>

fun formatLoop :: "(real \<Rightarrow> jsstring) \<Rightarrow> nat \<Rightarrow> SearchResult list \<Rightarrow> jsstring \<Rightarrow> jsstring" where
  "formatLoop big index [] context = context"
| "formatLoop big index (result # rest) context =
     (let context1 = context @ ascii ''['' @ decimal (index + 1) @ ascii ''] ''
                       @ title (metadata (chunk result)) @ [10];
          context2 = context1 @ content (chunk result) @ [10];
          context3 = context2 @ ascii ''('' @ similarityLabel @ ascii '': ''
                       @ toFixed1 big (js_times (score result) 100) @ ascii ''%)'' @ [10, 10]
      in formatLoop big (index + 1) rest context3)"

definition formatSearchResults :: "(real \<Rightarrow> jsstring) \<Rightarrow> SearchResult list \<Rightarrow> jsstring" where
  "formatSearchResults big results =
     (if length results = 0 then noResults else formatLoop big 0 results header)"

section \<open>Notions used in the statements\<close>

text \<open>What the loop of \<^verbatim>\<open>searchSimilarChunks\<close> does with one chunk of the store: nothing
  for a chunk without an embedding, the loop body otherwise.\<close>

definition scoreOf ::
  "DateEnv \<Rightarrow> int \<Rightarrow> jsstring \<Rightarrow> real list \<Rightarrow> DocumentChunk \<Rightarrow> SearchResult option" where
  "scoreOf env now query q c =
     (case embedding c of
        None \<Rightarrow> None
      | Some e \<Rightarrow> scoreChunk env now (isRecentQuery query) (isUpcomingQuery query)
                   (isPastQuery query) q c e)"

text \<open>A score that the comparator orders (any but \<^verbatim>\<open>NaN\<close>), and a list in descending
  order of score under the comparison \<^verbatim>\<open>>=\<close> of the language.\<close>

definition validScore :: "SearchResult \<Rightarrow> bool" where
  "validScore r = (score r \<noteq> NaN \<and> gridNum (score r))"

definition descending :: "SearchResult list \<Rightarrow> bool" where
  "descending rs = sorted_wrt (\<lambda>a b. js_ge (score a) (score b)) rs"

text \<open>
  A vector whose squares neither overflow nor underflow: not all zero, with at most
  \<open>10^6\<close> components, each zero or between \<open>10^-150\<close> and \<open>10^150\<close> in size.
\<close>

definition moderate :: "real list \<Rightarrow> bool" where
  "moderate v = (length v \<le> 10 ^ 6 \<and> (\<exists>x \<in> set v. x \<noteq> 0)
                 \<and> (\<forall>x \<in> set v. x = 0 \<or> (1 / 10 ^ 150 \<le> \<bar>x\<bar> \<and> \<bar>x\<bar> \<le> 10 ^ 150)))"

text \<open>A decimal numeral with one decimal place: an optional minus sign, one digit or more,
  a point and one digit.\<close>

definition oneDecimal :: "jsstring \<Rightarrow> bool" where
  "oneDecimal s =
     (let t = (case s of [] \<Rightarrow> s | c # cs \<Rightarrow> if c = 45 then cs else s)
      in 3 \<le> length t \<and> list_all isDigit (take (length t - 2) t)
         \<and> t ! (length t - 2) = 46 \<and> isDigit (last t))"

text \<open>A text without a decimal digit.\<close>

definition noDigits :: "jsstring \<Rightarrow> bool" where
  "noDigits s = list_all (\<lambda>c. \<not> isDigit c) s"

text \<open>
  The two ways a date gets into the extracted list: built from a year, a month and a day
  in the accepted ranges, or parsed from a string property under a date-naming key, with
  its year in the accepted range.
\<close>

definition acceptedDate :: "DateEnv \<Rightarrow> int \<Rightarrow> bool" where
  "acceptedDate env t =
     (\<exists>y m d. 2020 \<le> y \<and> y \<le> 2030 \<and> 1 \<le> m \<and> m \<le> 12 \<and> 1 \<le> d \<and> d \<le> 31
              \<and> t = newDate env y (m - 1) d)"

definition acceptedProperty :: "DateEnv \<Rightarrow> (jsstring \<times> jsany) list \<Rightarrow> int \<Rightarrow> bool" where
  "acceptedProperty env ps t =
     (\<exists>k v. (k, JString v) \<in> set ps \<and> isDateKey k \<and> parseDate env v = Some t
            \<and> 2020 \<le> getFullYear env t \<and> getFullYear env t \<le> 2030)"

text \<open>
  The entry of the formatted list as the specification words it: the number in brackets
  and the source title, the raw chunk content, and the score as a percentage in the
  similarity line, each on a line of its own, closed by an empty line.
\<close>

definition specEntry :: "(real \<Rightarrow> jsstring) \<Rightarrow> nat \<Rightarrow> SearchResult \<Rightarrow> jsstring" where
  "specEntry big n r =
     ascii ''['' @ decimal n @ ascii ''] '' @ title (metadata (chunk r)) @ [10]
     @ content (chunk r) @ [10]
     @ ascii ''('' @ similarityLabel @ ascii '': '' @ toFixed1 big (js_times (score r) 100)
     @ ascii ''%)'' @ [10, 10]"

definition specFormat :: "(real \<Rightarrow> jsstring) \<Rightarrow> SearchResult list \<Rightarrow> jsstring" where
  "specFormat big rs =
     (if rs = [] then noResults
      else header @ concat (map (\<lambda>i. specEntry big (i + 1) (rs ! i)) [0 ..< length rs]))"

text \<open>
  The two views of the embeddings. \<open>wellFormed\<close> says that the association list is a
  \<^verbatim>\<open>Map\<close> (one entry per key), \<open>inSync\<close> that every chunk with an embedding finds that
  vector under its id in the map, \<open>distinctIds\<close> that no two chunks of the store share an id.
\<close>

definition wellFormed :: "RAGSystem \<Rightarrow> bool" where
  "wellFormed st = distinct (map fst (embeddings st))"

definition inSync :: "RAGSystem \<Rightarrow> bool" where
  "inSync st = (\<forall>c \<in> set (chunks st). \<forall>e. embedding c = Some e \<longrightarrow>
                  map_of (embeddings st) (id c) = Some e)"

definition invariant :: "RAGSystem \<Rightarrow> bool" where
  "invariant st = (wellFormed st \<and> inSync st)"

definition distinctIds :: "RAGSystem \<Rightarrow> bool" where
  "distinctIds st = distinct (map id (chunks st))"

section \<open>Concrete instances\<close>

text \<open>Chunks, queries, an embedding service that answers every text with the vector
  \<open>[1, 0]\<close>, and stores, for the instances of the theorems. \<open>exampleNow\<close> is
  2026-11-02T00:00:00Z.\<close>

definition exampleChunk :: "jsstring \<Rightarrow> jsstring \<Rightarrow> real list option \<Rightarrow> DocumentChunk" where
  "exampleChunk cid text emb =
     \<lparr> id = cid, content = text,
       metadata = \<lparr> title = ascii ''T'', pageId = ascii ''p'', lastModified = [],
                    url = None, properties = Some [], chunkIndex = Some 0,
                    totalChunks = Some 1 \<rparr>,
       embedding = emb \<rparr>"

definition exampleService :: EmbeddingService where
  "exampleService texts = Inr (map (\<lambda>t. [1, 0]) texts)"

definition exampleNow :: int where
  "exampleNow = 1793577600000"

definition recentQuery :: jsstring where
  "recentQuery = [52572, 44540] @ ascii '' news''"

definition upcomingQuery :: jsstring where
  "upcomingQuery = [45796, 44032, 50724, 45716, 32, 51068, 51221]"

definition plainQuery :: jsstring where
  "plainQuery = ascii ''project plan''"

definition exampleStore :: RAGSystem where
  "exampleStore =
     \<lparr> chunks = [exampleChunk (ascii ''a-0'') (ascii ''alpha'') (Some [0, 1]),
                 exampleChunk (ascii ''b-0'') (ascii ''beta'') None,
                 exampleChunk (ascii ''c-0'') (ascii ''gamma'') (Some [1, 0])],
       embeddings = [(ascii ''a-0'', [0, 1]), (ascii ''c-0'', [1, 0])],
       openai = Some (ascii ''key'') \<rparr>"

text \<open>A store with two zero embeddings.\<close>

definition zeroStore :: RAGSystem where
  "zeroStore =
     \<lparr> chunks = [exampleChunk (ascii ''a-0'') (ascii ''alpha'') (Some [0, 1]),
                 exampleChunk (ascii ''b-0'') (ascii ''beta'') (Some [0, 0]),
                 exampleChunk (ascii ''c-0'') (ascii ''gamma'') (Some [1, 0]),
                 exampleChunk (ascii ''d-0'') (ascii ''delta'') (Some [0, 1])],
       embeddings = [(ascii ''a-0'', [0, 1]), (ascii ''b-0'', [0, 0]), (ascii ''c-0'', [1, 0]),
                     (ascii ''d-0'', [0, 1])],
       openai = Some (ascii ''key'') \<rparr>"

definition futureChunk :: DocumentChunk where
  "futureChunk = exampleChunk (ascii ''f-0'') (ascii ''deadline 2031-01-01 (tbd)'') (Some [1, 0])"

text \<open>Two results, with the doubles nearest to 0.873 and to 0.0015 as their scores.\<close>

definition scoredResult :: SearchResult where
  "scoredResult = \<lparr> chunk = exampleChunk (ascii ''a-0'') (ascii ''alpha'') (Some [1, 0]),
                     score = fl (873 / 1000) \<rparr>"

definition roundedResult :: SearchResult where
  "roundedResult = \<lparr> chunk = exampleChunk (ascii ''b-0'') (ascii ''beta'') (Some [0, 1]),
                      score = fl (3 / 2000) \<rparr>"

text \<open>Two pages without an id, as \<^verbatim>\<open>processNotionData\<close> chunks them, and a service that
  answers the text of the first with another vector than the text of the second.\<close>

definition pageWithoutId :: "jsstring \<Rightarrow> Page" where
  "pageWithoutId text =
     \<lparr> page_id = None, page_content = Some text, page_title = None,
       last_edited_time = None, page_url = None,
       page_metadata_properties = None, page_properties = None \<rparr>"

definition twoVectorService :: EmbeddingService where
  "twoVectorService texts = Inr (map (\<lambda>t. if t = ascii ''first'' then [1, 0] else [0, 1]) texts)"

definition duplicateIdStore :: RAGSystem where
  "duplicateIdStore =
     processNotionData (\<lambda>p. []) []
       [pageWithoutId (ascii ''first''), pageWithoutId (ascii ''second'')]
       (initializeOpenAI (ascii ''key'') newRAGSystem)"

definition singlePageStore :: RAGSystem where
  "singlePageStore =
     processNotionData (\<lambda>p. []) [] [examplePage] (initializeOpenAI (ascii ''key'') newRAGSystem)"

section \<open>Chunker: results\<close>

lemma substring_window:
  "a \<le> length s \<Longrightarrow> substring s a (min (a + n) (length s)) = take n (drop a s)"
  by (simp add: substring_def Let_def min_def max_def)

lemma splitLoop_eq:
  "splitLoop meta page text ((chunkSize - overlap) * k) k acc =
   acc @ map (\<lambda>j. mkChunk meta page j (ceil_div (length text) (chunkSize - overlap)) (window text j))
           [k ..< ceil_div (length text) (chunkSize - overlap)]"
proof (induction "length text - (chunkSize - overlap) * k" arbitrary: k acc rule: less_induct)
  case less
  let ?st = "chunkSize - overlap"
  let ?n = "ceil_div (length text) ?st"
  have st: "?st = 800" by (simp add: chunkSize_def overlap_def)
  show ?case
  proof (cases "?st * k < length text")
    case True
    have kn: "k < ?n" using True by (simp add: st ceil_div_def)
    have step: "?st * k + ?st = ?st * (k + 1)" by simp
    have dec: "length text - ?st * (k + 1) < length text - ?st * k"
      using True by (simp add: st)
    have sub: "substring text (?st * k) (min (?st * k + chunkSize) (length text)) = window text k"
      using True by (simp add: substring_window window_def)
    have "splitLoop meta page text (?st * k) k acc =
          splitLoop meta page text (?st * (k + 1)) (k + 1)
            (acc @ [mkChunk meta page k ?n (window text k)])"
      using True sub by (subst splitLoop.simps) (simp add: Let_def step del: One_nat_def)
    also have "\<dots> = (acc @ [mkChunk meta page k ?n (window text k)]) @
                 map (\<lambda>j. mkChunk meta page j ?n (window text j)) [k + 1 ..< ?n]"
      using less.hyps [OF dec] by simp
    also have "\<dots> = acc @ map (\<lambda>j. mkChunk meta page j ?n (window text j)) [k ..< ?n]"
      using kn by (simp add: upt_conv_Cons)
    finally show ?thesis .
  next
    case False
    then have "?n \<le> k" by (simp add: st ceil_div_def)
    with False show ?thesis by (subst splitLoop.simps) simp
  qed
qed

lemma splitIntoChunks_long:
  assumes "chunkSize < length text"
  shows "splitIntoChunks nowISO text ttl page =
         map (\<lambda>j. mkChunk (pageMetadata nowISO ttl page) page j
                    (ceil_div (length text) (chunkSize - overlap)) (window text j))
             [0 ..< ceil_div (length text) (chunkSize - overlap)]"
  using assms splitLoop_eq [of _ _ "text" 0 "[]"]
  by (simp add: splitIntoChunks_def Let_def)

lemma ceil_div_ceiling: "ceil_div a 800 = nat \<lceil>real a / 800\<rceil>"
proof -
  define q where "q = (a + 799) div 800"
  have md: "800 * q + (a + 799) mod 800 = a + 799" unfolding q_def by simp
  have "(a + 799) mod 800 < 800" by simp
  with md have lo: "a \<le> 800 * q" and hi: "800 * q < a + 800" by linarith+
  from lo have "real a \<le> real (800 * q)" by (rule of_nat_mono)
  then have up: "real a / 800 \<le> of_int (int q)" by simp
  from hi have "real (800 * q) < real (a + 800)" by (simp only: of_nat_less_iff)
  then have dn: "of_int (int q) - 1 < real a / 800" by simp
  have "\<lceil>real a / 800\<rceil> = int q" using dn up by (rule ceiling_unique)
  then show ?thesis by (simp add: ceil_div_def q_def)
qed

lemma window_length: "length (window text j) = min 1000 (length text - 800 * j)"
  by (simp add: window_def chunkSize_def overlap_def)

lemma window_overlap: "drop 800 (window text j) = take 200 (window text (j + 1))"
  by (simp add: window_def chunkSize_def overlap_def drop_take)

lemma window_substring:
  "800 * j \<le> length text \<Longrightarrow> window text j = substring text (800 * j) (min (800 * j + 1000) (length text))"
  by (simp add: substring_window window_def chunkSize_def overlap_def)

lemma content_mkChunk [simp]: "content (mkChunk meta page j n w) = w"
  and chunkIndex_mkChunk [simp]: "chunkIndex (metadata (mkChunk meta page j n w)) = Some j"
  and totalChunks_mkChunk [simp]: "totalChunks (metadata (mkChunk meta page j n w)) = Some n"
  by (simp_all add: mkChunk_def)

text \<open>
  Claim C6. A text of at most 1000 code units is chunked into exactly one chunk, with
  \<open>chunkIndex = 0\<close>, \<open>totalChunks = 1\<close> and the whole text as its content.
\<close>

theorem C6_short_text_single_chunk:
  assumes "length text \<le> 1000"
  shows "\<exists>c. splitIntoChunks nowISO text ttl page = [c]
             \<and> chunkIndex (metadata c) = Some 0
             \<and> totalChunks (metadata c) = Some 1
             \<and> content c = text"
  using assms by (simp add: splitIntoChunks_def chunkSize_def Let_def)

theorem C6_short_text_single_chunk_witness:
  "length (ascii ''hello'') \<le> 1000 \<and>
   (\<exists>c. splitIntoChunks [] (ascii ''hello'') (ascii ''t'') examplePage = [c]
         \<and> chunkIndex (metadata c) = Some 0
         \<and> totalChunks (metadata c) = Some 1
         \<and> content c = ascii ''hello'')"
proof -
  have h: "length (ascii ''hello'') \<le> 1000" by (simp add: ascii_def)
  show ?thesis
    using h C6_short_text_single_chunk [OF h, of "[]" "ascii ''t''" examplePage] by blast
qed

text \<open>
  Claim C2. A text of length \<open>L > 1000\<close> is chunked into exactly \<open>ceil (L / 800)\<close> chunks;
  every chunk records that number as \<open>totalChunks\<close>; chunk \<open>i\<close> is the window of 1000 code
  units starting at offset \<open>800 * i\<close> (cut at the end of the text); the last 200 code
  units of a chunk are the first 200 of the next one, except that the overlap is shorter
  when the next chunk is the final one and has fewer than 200 code units; a text of 1500
  code units gives the two chunks \<open>[0, 1000)\<close> and \<open>[800, 1500)\<close>.
\<close>

theorem C2_long_text_chunks:
  assumes "1000 < length text"
  shows "length (splitIntoChunks nowISO text ttl page) = nat \<lceil>real (length text) / 800\<rceil>
    \<and> (\<forall>c \<in> set (splitIntoChunks nowISO text ttl page).
          totalChunks (metadata c) = Some (nat \<lceil>real (length text) / 800\<rceil>))
    \<and> (\<forall>i < length (splitIntoChunks nowISO text ttl page).
          chunkIndex (metadata (splitIntoChunks nowISO text ttl page ! i)) = Some i
          \<and> content (splitIntoChunks nowISO text ttl page ! i) =
              substring text (800 * i) (min (800 * i + 1000) (length text)))
    \<and> (\<forall>i. i + 1 < length (splitIntoChunks nowISO text ttl page) \<longrightarrow>
          drop 800 (content (splitIntoChunks nowISO text ttl page ! i)) =
          take 200 (content (splitIntoChunks nowISO text ttl page ! (i + 1)))
          \<and> (i + 2 < length (splitIntoChunks nowISO text ttl page)
               \<or> 200 \<le> length (content (splitIntoChunks nowISO text ttl page ! (i + 1)))
             \<longrightarrow> length (drop 800 (content (splitIntoChunks nowISO text ttl page ! i))) = 200))
    \<and> (length text = 1500 \<longrightarrow>
          map content (splitIntoChunks nowISO text ttl page) =
          [substring text 0 1000, substring text 800 1500])"
proof -
  let ?n = "ceil_div (length text) (chunkSize - overlap)"
  let ?cs = "splitIntoChunks nowISO text ttl page"
  have st: "chunkSize - overlap = 800" by (simp add: chunkSize_def overlap_def)
  have n_eq: "?n = nat \<lceil>real (length text) / 800\<rceil>"
    by (simp only: st ceil_div_ceiling)
  have cs: "?cs = map (\<lambda>j. mkChunk (pageMetadata nowISO ttl page) page j ?n (window text j)) [0 ..< ?n]"
    using assms by (intro splitIntoChunks_long) (simp add: chunkSize_def)
  have len: "length ?cs = ?n" by (simp add: cs)
  have nth: "\<And>i. i < ?n \<Longrightarrow> ?cs ! i = mkChunk (pageMetadata nowISO ttl page) page i ?n (window text i)"
    by (simp add: cs)
  have bound: "\<And>i. i < ?n \<Longrightarrow> 800 * i < length text"
    by (simp add: st ceil_div_def)
  have c1: "length ?cs = nat \<lceil>real (length text) / 800\<rceil>"
    using len n_eq by simp
  have c2: "\<forall>c \<in> set ?cs. totalChunks (metadata c) = Some (nat \<lceil>real (length text) / 800\<rceil>)"
    unfolding n_eq [symmetric] by (subst cs) auto
  have c3: "\<forall>i < length ?cs. chunkIndex (metadata (?cs ! i)) = Some i
              \<and> content (?cs ! i) = substring text (800 * i) (min (800 * i + 1000) (length text))"
  proof (intro allI impI)
    fix i assume "i < length ?cs"
    then have i: "i < ?n" using len by simp
    from bound [OF i] have "800 * i \<le> length text" by simp
    then show "chunkIndex (metadata (?cs ! i)) = Some i
              \<and> content (?cs ! i) = substring text (800 * i) (min (800 * i + 1000) (length text))"
      using nth [OF i] by (simp add: window_substring)
  qed
  have c4: "\<forall>i. i + 1 < length ?cs \<longrightarrow>
          drop 800 (content (?cs ! i)) = take 200 (content (?cs ! (i + 1)))
          \<and> (i + 2 < length ?cs \<or> 200 \<le> length (content (?cs ! (i + 1)))
             \<longrightarrow> length (drop 800 (content (?cs ! i))) = 200)"
  proof (intro allI impI conjI)
    fix i assume a: "i + 1 < length ?cs"
    then have i1: "i + 1 < ?n" and i: "i < ?n" using len by simp_all
    show "drop 800 (content (?cs ! i)) = take 200 (content (?cs ! (i + 1)))"
      using nth [OF i] nth [OF i1] by (simp add: window_overlap)
    assume b: "i + 2 < length ?cs \<or> 200 \<le> length (content (?cs ! (i + 1)))"
    have "800 * i + 1000 \<le> length text"
    proof (cases "i + 2 < length ?cs")
      case True
      then have "i + 2 < ?n" using len by simp
      from bound [OF this] show ?thesis by simp
    next
      case False
      with b have "200 \<le> length (content (?cs ! (i + 1)))" by simp
      then have "200 \<le> length (window text (i + 1))" using nth [OF i1] by simp
      then show ?thesis by (simp add: window_length)
    qed
    then show "length (drop 800 (content (?cs ! i))) = 200"
      using nth [OF i] by (simp add: window_length)
  qed
  have c5: "length text = 1500 \<longrightarrow> map content ?cs = [substring text 0 1000, substring text 800 1500]"
  proof
    assume L: "length text = 1500"
    have n2: "?n = 2" by (simp add: st ceil_div_def L)
    have "[0 ..< ?n] = [0, 1]" by (simp add: n2 upt_conv_Cons)
    then have "map content ?cs = [window text 0, window text 1]"
      by (simp add: cs comp_def)
    moreover have "window text 0 = substring text 0 1000"
      using window_substring [of 0 "text"] L by simp
    moreover have "window text 1 = substring text 800 1500"
      using window_substring [of 1 "text"] L by simp
    ultimately show "map content ?cs = [substring text 0 1000, substring text 800 1500]"
      by simp
  qed
  from c1 c2 c3 c4 c5 show ?thesis by (intro conjI)
qed

theorem C2_long_text_chunks_witness:
  "1000 < length (replicate 1500 (65::nat))
   \<and> length (splitIntoChunks [] (replicate 1500 65) (ascii ''t'') examplePage) = 2
   \<and> map content (splitIntoChunks [] (replicate 1500 65) (ascii ''t'') examplePage) =
       [replicate 1000 65, replicate 700 65]"
proof -
  have h: "1000 < length (replicate 1500 (65::nat))" by simp
  have s0: "substring (replicate 1500 (65::nat)) 0 1000 = replicate 1000 65"
    and s1: "substring (replicate 1500 (65::nat)) 800 1500 = replicate 700 65"
    by (simp_all add: substring_def)
  have c: "\<lceil>(1500::real) / 800\<rceil> = 2" by (simp add: ceiling_eq_iff)
  from C2_long_text_chunks [OF h, of "[]" "ascii ''t''" examplePage] h s0 s1 c
  show ?thesis by simp
qed

section \<open>Numbers: results\<close>

lemma ilog2_bounds:
  assumes "x \<noteq> 0"
  shows "2 powi (ilog2 x) \<le> \<bar>x\<bar>" and "\<bar>x\<bar> < 2 powi (ilog2 x + 1)"
proof -
  have "2 powi (ilog2 x) \<le> \<bar>x\<bar> \<and> \<bar>x\<bar> < 2 powi (ilog2 x + 1)"
  proof (cases "1 \<le> \<bar>x\<bar>")
    case True
    define n where "n = \<lfloor>\<bar>x\<bar>\<rfloor>"
    have n1: "1 \<le> n" using True by (simp add: n_def le_floor_iff)
    then have n0: "0 < n" by simp
    have il: "ilog2 x = bitlen n - 1" using True by (simp add: ilog2_def n_def)
    have bl: "1 \<le> bitlen n" using n0 by (simp add: bitlen_def floorlog_def)
    from bitlen_bounds [OF n0] have lo: "2 ^ nat (bitlen n - 1) \<le> n" and hi: "n < 2 ^ nat (bitlen n)"
      by simp_all
    have "real_of_int n \<le> \<bar>x\<bar>" by (simp add: n_def)
    moreover have "(2::real) ^ nat (bitlen n - 1) \<le> real_of_int n"
      using lo by (metis of_int_le_iff of_int_numeral of_int_power)
    ultimately have "(2::real) ^ nat (bitlen n - 1) \<le> \<bar>x\<bar>" by linarith
    then have a: "(2::real) powi (bitlen n - 1) \<le> \<bar>x\<bar>"
      using bl by (simp add: power_int_def)
    have "n + 1 \<le> 2 ^ nat (bitlen n)" using hi by simp
    then have "real_of_int (n + 1) \<le> (2::real) ^ nat (bitlen n)"
      by (metis of_int_le_iff of_int_numeral of_int_power)
    moreover have "\<bar>x\<bar> < real_of_int (n + 1)" unfolding n_def by linarith
    ultimately have b: "\<bar>x\<bar> < (2::real) powi (bitlen n)"
      using bl by (simp add: power_int_def)
    from a b show ?thesis by (simp add: il)
  next
    case False
    then have x1: "\<bar>x\<bar> < 1" by simp
    have xp: "0 < \<bar>x\<bar>" using assms by simp
    define y where "y = 1 / \<bar>x\<bar>"
    have y1: "1 < y" using x1 xp by (simp add: y_def)
    define k where "k = \<lceil>y\<rceil> - 1"
    have ky: "real_of_int k < y" unfolding k_def by linarith
    have yk: "y \<le> real_of_int (k + 1)" unfolding k_def by simp
    have k1: "1 \<le> k" using y1 unfolding k_def by linarith
    then have k0: "0 < k" by simp
    have il: "ilog2 x = - bitlen k" using False by (simp add: ilog2_def k_def y_def)
    have bl: "1 \<le> bitlen k" using k0 by (simp add: bitlen_def floorlog_def)
    from bitlen_bounds [OF k0] have lo: "2 ^ nat (bitlen k - 1) \<le> k" and hi: "k < 2 ^ nat (bitlen k)"
      by simp_all
    have "k + 1 \<le> 2 ^ nat (bitlen k)" using hi by simp
    then have "real_of_int (k + 1) \<le> (2::real) ^ nat (bitlen k)"
      by (metis of_int_le_iff of_int_numeral of_int_power)
    with yk have "y \<le> (2::real) ^ nat (bitlen k)" by linarith
    then have "1 / \<bar>x\<bar> \<le> (2::real) ^ nat (bitlen k)" by (simp add: y_def)
    then have "1 \<le> (2::real) ^ nat (bitlen k) * \<bar>x\<bar>" using xp by (simp add: field_simps)
    then have "1 / (2::real) ^ nat (bitlen k) \<le> \<bar>x\<bar>" by (simp add: field_simps)
    then have a: "(2::real) powi (- bitlen k) \<le> \<bar>x\<bar>"
      using bl by (simp add: power_int_def field_simps)
    have "(2::real) ^ nat (bitlen k - 1) \<le> real_of_int k"
      using lo by (metis of_int_le_iff of_int_numeral of_int_power)
    with ky have "(2::real) ^ nat (bitlen k - 1) < y" by linarith
    then have "(2::real) ^ nat (bitlen k - 1) < 1 / \<bar>x\<bar>" by (simp add: y_def)
    then have "(2::real) ^ nat (bitlen k - 1) * \<bar>x\<bar> < 1" using xp by (simp add: field_simps)
    then have "\<bar>x\<bar> < 1 / (2::real) ^ nat (bitlen k - 1)" by (simp add: field_simps)
    moreover have "(2::real) powi (- bitlen k + 1) = 1 / (2::real) ^ nat (bitlen k - 1)"
    proof (cases "bitlen k = 1")
      case True
      then show ?thesis by simp
    next
      case False
      with bl have "- bitlen k + 1 < 0" by simp
      then show ?thesis by (simp add: power_int_def field_simps)
    qed
    ultimately have b: "\<bar>x\<bar> < (2::real) powi (- bitlen k + 1)" by simp
    from a b show ?thesis by (simp add: il)
  qed
  then show "2 powi (ilog2 x) \<le> \<bar>x\<bar>" and "\<bar>x\<bar> < 2 powi (ilog2 x + 1)" by simp_all
qed

lemma rne_error: "\<bar>real_of_int (rne y) - y\<bar> \<le> 1 / 2"
  unfolding rne_def Let_def by (auto; linarith)

lemma rne_bounds: "y - 1 / 2 \<le> real_of_int (rne y)" "real_of_int (rne y) \<le> y + 1 / 2"
  using rne_error [of y] by linarith+

lemma ilog2_unique:
  assumes "2 powi k \<le> \<bar>x\<bar>" "\<bar>x\<bar> < 2 powi (k + 1)"
  shows "ilog2 x = k"
proof -
  have p: "(0::real) < 2 powi k" by (rule zero_less_power_int) simp
  have x: "x \<noteq> 0"
  proof
    assume "x = 0"
    with assms(1) have "(2::real) powi k \<le> 0" by simp
    with p show False by linarith
  qed
  note b = ilog2_bounds [OF x]
  have "\<not> ilog2 x + 1 \<le> k"
  proof
    assume "ilog2 x + 1 \<le> k"
    then have "(2::real) powi (ilog2 x + 1) \<le> 2 powi k" by (intro power_int_increasing) simp_all
    with assms(1) b(2) show False by linarith
  qed
  moreover have "\<not> k + 1 \<le> ilog2 x"
  proof
    assume "k + 1 \<le> ilog2 x"
    then have "(2::real) powi (k + 1) \<le> 2 powi (ilog2 x)" by (intro power_int_increasing) simp_all
    with assms(2) b(1) show False by linarith
  qed
  ultimately show ?thesis by linarith
qed

lemma rne_unique:
  assumes "\<bar>y - real_of_int m\<bar> < 1 / 2"
  shows "rne y = m"
proof -
  have "\<bar>real_of_int (rne y) - real_of_int m\<bar> < 1" using rne_error [of y] assms by linarith
  then have "\<bar>real_of_int (rne y - m)\<bar> < 1" by simp
  then have "\<bar>rne y - m\<bar> < 1" by linarith
  then show ?thesis by linarith
qed

lemma rne_int [simp]: "rne (real_of_int m) = m"
  by (rule rne_unique) simp

lemma fl_0 [simp]: "fl 0 = Num 0"
  by (simp add: fl_def Let_def rne_def)

text \<open>Evaluating fl: the binade, the rounded mantissa, no overflow.\<close>

lemma fl_eval:
  assumes "2 powi k \<le> \<bar>x\<bar>" "\<bar>x\<bar> < 2 powi (k + 1)"
    and "e = max (k - 52) (- 1074)"
    and "\<bar>x / 2 powi e - real_of_int m\<bar> < 1 / 2"
    and "\<bar>real_of_int m * 2 powi e\<bar> < 2 ^ 1024"
  shows "fl x = Num (real_of_int m * 2 powi e)"
proof -
  have "ulpExp x = e" using assms(1-3) by (simp add: ulpExp_def ilog2_unique)
  moreover have "rne (x / 2 powi e) = m" using assms(4) by (rule rne_unique)
  ultimately show ?thesis using assms(5) by (simp add: fl_def Let_def abs_less_iff not_le)
qed

lemma ulpExp_ge: "- 1074 \<le> ulpExp x"
  by (simp add: ulpExp_def)

lemma powi_split: "- 1074 \<le> e \<Longrightarrow> (2::real) powi e = 2 ^ nat (e + 1074) / 2 ^ 1074"
proof -
  assume "- 1074 \<le> e"
  then have e: "int (nat (e + 1074)) + (- 1074) = e" by simp
  have "(2::real) powi (int (nat (e + 1074)) + (- 1074))
        = 2 powi int (nat (e + 1074)) * 2 powi (- 1074)"
    by (rule power_int_add) simp
  moreover have "(2::real) powi int (nat (e + 1074)) = 2 ^ nat (e + 1074)"
    by (rule power_int_of_nat)
  moreover have "(2::real) powi (- 1074) = 1 / 2 ^ 1074"
    by (simp add: power_int_minus field_simps)
  ultimately show ?thesis unfolding e by simp
qed

lemma fl_cases:
  "fl x = PosInf \<or> fl x = NegInf
   \<or> fl x = Num (real_of_int (rne (x / 2 powi ulpExp x)) * 2 powi ulpExp x)"
  by (simp add: fl_def Let_def)

lemma fl_not_NaN [simp]: "fl x \<noteq> NaN"
  by (simp add: fl_def Let_def)

lemma fl_onGrid: "fl x = Num v \<Longrightarrow> onGrid v"
proof -
  assume a: "fl x = Num v"
  define e where "e = ulpExp x"
  define m where "m = rne (x / 2 powi e)"
  from a fl_cases [of x] have v: "v = real_of_int m * 2 powi e" by (auto simp: e_def m_def)
  have "- 1074 \<le> e" by (simp add: e_def ulpExp_ge)
  then have "(2::real) powi e = 2 ^ nat (e + 1074) / 2 ^ 1074" by (rule powi_split)
  then have "v = real_of_int (m * 2 ^ nat (e + 1074)) / 2 ^ 1074" by (simp add: v)
  then show ?thesis unfolding onGrid_def by blast
qed

lemma fl_nonpos: "x \<le> 0 \<Longrightarrow> \<not> js_positive (fl x)"
proof -
  assume x: "x \<le> 0"
  define e where "e = ulpExp x"
  have p: "(0::real) < 2 powi e" by (rule zero_less_power_int) simp
  then have "x / 2 powi e \<le> 0" using x by (simp add: divide_nonpos_pos)
  then have "real_of_int (rne (x / 2 powi e)) \<le> 1 / 2" using rne_bounds(2) [of "x / 2 powi e"] by linarith
  then have "rne (x / 2 powi e) \<le> 0" by linarith
  then have "real_of_int (rne (x / 2 powi e)) \<le> 0" by simp
  then have "real_of_int (rne (x / 2 powi e)) * 2 powi e \<le> 0"
    using p by (simp add: mult_le_0_iff)
  then show ?thesis by (simp add: fl_def Let_def e_def)
qed

lemma fl_pos:
  assumes "1 / 2 ^ 1074 \<le> x"
  shows "js_positive (fl x)"
proof -
  define e where "e = ulpExp x"
  have x0: "0 < x" using assms by (rule less_le_trans [rotated]) simp
  have p: "(0::real) < 2 powi e" by (rule zero_less_power_int) simp
  have "2 powi e \<le> x"
  proof (cases "ilog2 x - 52 \<le> - 1074")
    case True
    then have "e = - 1074" by (simp add: e_def ulpExp_def)
    then show ?thesis using assms by (simp add: power_int_minus field_simps)
  next
    case False
    then have e: "e = ilog2 x - 52" by (simp add: e_def ulpExp_def)
    have "(2::real) powi e \<le> 2 powi (ilog2 x)" unfolding e by (intro power_int_increasing) simp_all
    also have "\<dots> \<le> \<bar>x\<bar>" using x0 by (intro ilog2_bounds) simp
    finally show ?thesis using x0 by simp
  qed
  then have "1 \<le> x / 2 powi e" using p by (simp add: field_simps)
  then have "1 / 2 \<le> real_of_int (rne (x / 2 powi e))" using rne_bounds(1) [of "x / 2 powi e"] by linarith
  then have "1 \<le> rne (x / 2 powi e)" by linarith
  then have "0 < real_of_int (rne (x / 2 powi e))" by simp
  then have "0 < real_of_int (rne (x / 2 powi e)) * 2 powi e" using p by simp
  then show ?thesis by (simp add: fl_def Let_def e_def not_le)
qed

lemma onGrid_diff_pos:
  assumes "onGrid a" "onGrid b" "a < b"
  shows "1 / 2 ^ 1074 \<le> b - a"
proof -
  from assms obtain k l :: int where a: "a = real_of_int k / 2 ^ 1074" and b: "b = real_of_int l / 2 ^ 1074"
    unfolding onGrid_def by blast
  from assms(3) have "real_of_int k < real_of_int l" unfolding a b by (simp add: divide_less_cancel)
  then have "k + 1 \<le> l" by simp
  then have "real_of_int k + 1 \<le> real_of_int l" by linarith
  then have "(real_of_int k + 1) / 2 ^ 1074 \<le> real_of_int l / 2 ^ 1074"
    by (simp add: divide_le_cancel)
  then show ?thesis unfolding a b by (simp add: field_simps)
qed

lemma fl_diff_positive:
  assumes "onGrid a" "onGrid b"
  shows "js_positive (fl (b - a)) \<longleftrightarrow> a < b"
proof (cases "a < b")
  case True
  from onGrid_diff_pos [OF assms True] have "js_positive (fl (b - a))" by (rule fl_pos)
  with True show ?thesis by simp
next
  case False
  then have "b - a \<le> 0" by simp
  then have "\<not> js_positive (fl (b - a))" by (rule fl_nonpos)
  with False show ?thesis by simp
qed

text \<open>Error of rounding.\<close>

lemma ilog2_le:
  assumes "x \<noteq> 0" "\<bar>x\<bar> \<le> 2 ^ 1023"
  shows "ilog2 x \<le> 1023"
proof -
  have "(2::real) powi ilog2 x \<le> 2 powi 1023"
    using ilog2_bounds(1) [OF assms(1)] assms(2) by simp
  then show ?thesis by (rule power_int_le_imp_le_exp [rotated]) simp_all
qed

lemma fl_error_ulp:
  assumes "\<bar>x\<bar> \<le> 2 ^ 1023"
  shows "\<exists>v. fl x = Num v \<and> \<bar>v - x\<bar> \<le> 2 powi ulpExp x / 2"
proof (cases "x = 0")
  case True
  then show ?thesis by (simp add: zero_le_power_int)
next
  case False
  define e where "e = ulpExp x"
  define m where "m = rne (x / 2 powi e)"
  define v where "v = real_of_int m * 2 powi e"
  have p: "(0::real) < 2 powi e" by (rule zero_less_power_int) simp
  have "\<bar>real_of_int m - x / 2 powi e\<bar> \<le> 1 / 2" unfolding m_def by (rule rne_error)
  then have "\<bar>real_of_int m - x / 2 powi e\<bar> * 2 powi e \<le> 1 / 2 * 2 powi e"
    using p by (intro mult_right_mono) simp_all
  moreover have "\<bar>real_of_int m - x / 2 powi e\<bar> * 2 powi e = \<bar>v - x\<bar>"
  proof -
    have "\<bar>real_of_int m - x / 2 powi e\<bar> * 2 powi e = \<bar>(real_of_int m - x / 2 powi e) * 2 powi e\<bar>"
      using p by (simp add: abs_mult)
    also have "(real_of_int m - x / 2 powi e) * 2 powi e = v - x"
      using p by (simp add: v_def field_simps)
    finally show ?thesis .
  qed
  ultimately have err: "\<bar>v - x\<bar> \<le> 2 powi e / 2" by simp
  have "ilog2 x \<le> 1023" using False assms by (rule ilog2_le)
  then have "e \<le> 971" by (simp add: e_def ulpExp_def)
  then have "(2::real) powi e \<le> 2 powi 971" by (intro power_int_increasing) simp_all
  then have "(2::real) powi e \<le> 2 ^ 971" by simp
  with err assms have "\<bar>v\<bar> \<le> 2 ^ 1023 + 2 ^ 971 / 2" by linarith
  also have "\<dots> < (2::real) ^ 1024" by simp
  finally have "\<bar>v\<bar> < 2 ^ 1024" .
  then have "fl x = Num v"
    by (simp add: fl_def Let_def v_def m_def e_def abs_less_iff not_le)
  with err show ?thesis unfolding e_def by blast
qed

lemma fl_error_rel:
  assumes "x = 0 \<or> 1 / 2 ^ 1022 \<le> \<bar>x\<bar>" "\<bar>x\<bar> \<le> 2 ^ 1023"
  shows "\<exists>v. fl x = Num v \<and> \<bar>v - x\<bar> \<le> \<bar>x\<bar> / 2 ^ 53"
proof (cases "x = 0")
  case True
  then show ?thesis by simp
next
  case False
  with assms(1) have lo: "1 / 2 ^ 1022 \<le> \<bar>x\<bar>" by simp
  have "\<not> ilog2 x + 1 \<le> - 1022"
  proof
    assume "ilog2 x + 1 \<le> - 1022"
    then have "(2::real) powi (ilog2 x + 1) \<le> 2 powi (- 1022)" by (intro power_int_increasing) simp_all
    with ilog2_bounds(2) [OF False] have "\<bar>x\<bar> < 2 powi (- 1022)" by linarith
    with lo show False by (simp add: power_int_minus field_simps)
  qed
  then have e: "ulpExp x = ilog2 x - 52" by (simp add: ulpExp_def)
  have "(2::real) powi (ilog2 x - 52) = 2 powi (ilog2 x) * 2 powi (- 52)"
    using power_int_add [of "2::real" "ilog2 x" "- 52"] by simp
  also have "\<dots> = 2 powi (ilog2 x) / 2 ^ 52" by (simp add: power_int_minus field_simps)
  finally have "(2::real) powi ulpExp x / 2 = 2 powi (ilog2 x) / 2 ^ 53" by (simp add: e)
  also have "\<dots> \<le> \<bar>x\<bar> / 2 ^ 53"
    using ilog2_bounds(1) [OF False] by (simp add: divide_le_cancel)
  finally have "(2::real) powi ulpExp x / 2 \<le> \<bar>x\<bar> / 2 ^ 53" .
  with fl_error_ulp [OF assms(2)] show ?thesis by fastforce
qed

lemma fl_error_abs:
  assumes "\<bar>x\<bar> \<le> 2 ^ 1023"
  shows "\<exists>v. fl x = Num v \<and> \<bar>v - x\<bar> \<le> \<bar>x\<bar> / 2 ^ 53 + 1 / 2 ^ 1075"
proof (cases "x = 0 \<or> 1 / 2 ^ 1022 \<le> \<bar>x\<bar>")
  case True
  from fl_error_rel [OF True assms] show ?thesis by fastforce
next
  case False
  then have x: "x \<noteq> 0" and sm: "\<bar>x\<bar> < 1 / 2 ^ 1022" by simp_all
  have "\<not> - 1022 \<le> ilog2 x"
  proof
    assume "- 1022 \<le> ilog2 x"
    then have "(2::real) powi (- 1022) \<le> 2 powi (ilog2 x)" by (intro power_int_increasing) simp_all
    with ilog2_bounds(1) [OF x] have "2 powi (- 1022) \<le> \<bar>x\<bar>" by linarith
    with sm show False by (simp add: power_int_minus field_simps)
  qed
  then have e: "ulpExp x = - 1074" by (simp add: ulpExp_def)
  have "(2::real) powi (- 1074) / 2 = 1 / 2 ^ 1075" by (simp add: power_int_minus field_simps)
  with fl_error_ulp [OF assms] e obtain v where "fl x = Num v" "\<bar>v - x\<bar> \<le> 1 / 2 ^ 1075" by auto
  moreover have "0 \<le> \<bar>x\<bar> / 2 ^ 53" by simp
  ultimately show ?thesis by (intro exI [of _ v]) linarith
qed

lemma rU_pos: "1 \<le> rU" "0 < rU"
  by (simp_all add: rU_def)
lemma rL_pos: "0 < rL" "rL \<le> 1"
  by (simp_all add: rL_def)

lemma rU_power_le:
  assumes "m \<le> 2 ^ 22"
  shows "rU ^ m \<le> 1 + 1 / 2 ^ 30"
proof -
  have "rU ^ m \<le> 1 / (1 - real m / 2 ^ 53)" if "m \<le> 2 ^ 22" for m
    using that
  proof (induction m)
    case 0
    show ?case by simp
  next
    case (Suc m)
    then have ih: "rU ^ m \<le> 1 / (1 - real m / 2 ^ 53)" by simp
    have m: "real m + 1 \<le> 2 ^ 22" using Suc.prems by (metis of_nat_Suc of_nat_le_iff of_nat_numeral of_nat_power add.commute)
    have d1: "0 < 1 - real m / 2 ^ 53" using m by (simp add: field_simps)
    have d2: "0 < 1 - (real m + 1) / 2 ^ 53" using m by (simp add: field_simps)
    have "rU ^ Suc m = rU * rU ^ m" by simp
    also have "\<dots> \<le> rU * (1 / (1 - real m / 2 ^ 53))"
      using ih rU_pos by (intro mult_left_mono) simp_all
    also have "\<dots> \<le> 1 / (1 - (real m + 1) / 2 ^ 53)"
    proof -
      have "(1 + 1 / 2 ^ 53) * (1 - (real m + 1) / 2 ^ 53) \<le> 1 - real m / 2 ^ 53"
        by (simp add: field_simps)
      then have "rU * (1 - (real m + 1) / 2 ^ 53) \<le> 1 - real m / 2 ^ 53" by (simp add: rU_def)
      then have "rU \<le> (1 - real m / 2 ^ 53) / (1 - (real m + 1) / 2 ^ 53)"
        using d2 by (simp add: pos_le_divide_eq)
      then have "rU / (1 - real m / 2 ^ 53) \<le> 1 / (1 - (real m + 1) / 2 ^ 53)"
        using d1 d2 by (simp add: field_simps)
      then show ?thesis by simp
    qed
    finally show ?case by (simp add: add.commute)
  qed
  from this [OF assms] have "rU ^ m \<le> 1 / (1 - real m / 2 ^ 53)" .
  also have "\<dots> \<le> 1 / (1 - 2 ^ 22 / 2 ^ 53)"
  proof -
    have "real m \<le> 2 ^ 22" using assms by (metis of_nat_le_iff of_nat_numeral of_nat_power)
    then have "1 - 2 ^ 22 / 2 ^ 53 \<le> 1 - real m / 2 ^ 53" by (simp add: divide_le_cancel)
    then show ?thesis by (intro divide_left_mono) simp_all
  qed
  also have "\<dots> \<le> 1 + 1 / 2 ^ 30" by simp
  finally show ?thesis .
qed

lemma rL_power_ge:
  assumes "m \<le> 2 ^ 22"
  shows "1 - 1 / 2 ^ 31 \<le> rL ^ m"
proof -
  have "1 + real m * (- (1 / 2 ^ 53)) \<le> (1 + (- (1 / 2 ^ 53))) ^ m"
    by (rule Bernoulli_inequality) simp
  then have "1 - real m / 2 ^ 53 \<le> rL ^ m" by (simp add: rL_def)
  moreover have "real m \<le> 2 ^ 22" using assms by (metis of_nat_le_iff of_nat_numeral of_nat_power)
  then have "1 - 2 ^ 22 / 2 ^ 53 \<le> 1 - real m / 2 ^ 53" by (simp add: divide_le_cancel)
  moreover have "(1::real) - 1 / 2 ^ 31 \<le> 1 - 2 ^ 22 / 2 ^ 53" by simp
  ultimately show ?thesis by linarith
qed

lemma rU_cube_inverse: "(1::real) / 2 ^ 1022 \<le> 1 / rU ^ 3"
proof -
  have "rU ^ 3 \<le> 1 + 1 / 2 ^ 30" by (rule rU_power_le) simp
  then have "rU ^ 3 \<le> 2 ^ 1022" by (rule order_trans) simp
  moreover have "0 < rU ^ 3" using rU_pos by simp
  ultimately show ?thesis by (intro divide_left_mono) simp_all
qed
lemma rL_cube_inverse: "1 / rL ^ 3 \<le> (2::real) ^ 1023"
proof -
  have "1 - 1 / 2 ^ 31 \<le> rL ^ 3" by (rule rL_power_ge) simp
  then have "1 / 2 \<le> rL ^ 3" by (rule order_trans [rotated]) simp
  moreover have "0 < rL ^ 3" using rL_pos by simp
  ultimately have "1 / rL ^ 3 \<le> 1 / (1 / 2)" by (intro divide_left_mono) simp_all
  then show ?thesis by (rule order_trans) simp
qed
lemma round_four_lower: "1 - 1 / 10 ^ 15 \<le> rL * (1 / rU ^ 3)"
  by (simp add: rL_def rU_def power3_eq_cube field_simps)
lemma round_four_upper: "rU * (1 / rL ^ 3) \<le> 1 + 1 / 10 ^ 15"
  by (simp add: rL_def rU_def power3_eq_cube field_simps)

lemma rel_bounds:
  assumes "\<bar>p - q\<bar> \<le> \<bar>q\<bar> / 2 ^ 53" "0 \<le> q"
  shows "rL * q \<le> p" and "p \<le> rU * q"
proof -
  have l: "rL * q = q - q / 2 ^ 53" and u: "rU * q = q + q / 2 ^ 53"
    by (simp_all add: rL_def rU_def algebra_simps)
  from assms have "\<bar>p - q\<bar> \<le> q / 2 ^ 53" by simp
  then have "q - q / 2 ^ 53 \<le> p" and "p \<le> q + q / 2 ^ 53" by linarith+
  then show "rL * q \<le> p" and "p \<le> rU * q" unfolding l u by simp_all
qed

lemma abs_bounds:
  assumes "\<bar>p - q\<bar> \<le> \<bar>q\<bar> / 2 ^ 53 + c"
  shows "\<bar>p\<bar> \<le> rU * \<bar>q\<bar> + c"
proof -
  have "rU * \<bar>q\<bar> = \<bar>q\<bar> + \<bar>q\<bar> / 2 ^ 53" by (simp add: rU_def algebra_simps)
  moreover have "\<bar>p\<bar> \<le> \<bar>q\<bar> + \<bar>p - q\<bar>" by linarith
  ultimately show ?thesis using assms by linarith
qed

lemma fl_nonneg:
  assumes "0 \<le> x"
  shows "fl x = PosInf \<or> (\<exists>v. fl x = Num v \<and> 0 \<le> v)"
proof -
  define e where "e = ulpExp x"
  have p: "(0::real) < 2 powi e" by (rule zero_less_power_int) simp
  then have "0 \<le> x / 2 powi e" using assms by simp
  then have "- (1 / 2) \<le> real_of_int (rne (x / 2 powi e))" using rne_bounds(1) [of "x / 2 powi e"] by linarith
  then have "0 \<le> rne (x / 2 powi e)" by linarith
  then have "0 \<le> real_of_int (rne (x / 2 powi e)) * 2 powi e" using p by simp
  then show ?thesis by (simp add: fl_def Let_def e_def)
qed

lemma fl_finite:
  assumes "\<bar>x\<bar> \<le> 2 ^ 1023"
  shows "\<exists>v. fl x = Num v"
  using fl_error_ulp [OF assms] by blast

text \<open>A double is rounded to itself.\<close>

lemma fl_exact:
  assumes "\<bar>m\<bar> < 2 ^ 53" "- 1074 \<le> e" "e \<le> 971"
  shows "fl (real_of_int m * 2 powi e) = Num (real_of_int m * 2 powi e)"
proof (cases "m = 0")
  case True
  then show ?thesis by simp
next
  case False
  define x where "x = real_of_int m * 2 powi e"
  have pe: "(0::real) < 2 powi e" by (rule zero_less_power_int) simp
  have x0: "x \<noteq> 0" using False pe by (simp add: x_def)
  have ax: "\<bar>x\<bar> = \<bar>real_of_int m\<bar> * 2 powi e" using pe by (simp add: x_def abs_mult)
  have "\<bar>real_of_int m\<bar> < 2 ^ 53" using assms(1) by (metis of_int_abs of_int_less_iff of_int_numeral of_int_power)
  then have "\<bar>x\<bar> < 2 ^ 53 * 2 powi e" unfolding ax using pe by (intro mult_strict_right_mono) simp_all
  also have "(2::real) ^ 53 * 2 powi e = 2 powi (53 + e)"
    using power_int_add [of "2::real" 53 e] by simp
  finally have xu: "\<bar>x\<bar> < 2 powi (53 + e)" .
  have "\<not> 53 + e \<le> ilog2 x"
  proof
    assume "53 + e \<le> ilog2 x"
    then have "(2::real) powi (53 + e) \<le> 2 powi ilog2 x" by (intro power_int_increasing) simp_all
    with ilog2_bounds(1) [OF x0] xu show False by linarith
  qed
  then have "ilog2 x - 52 \<le> e" by simp
  then have ue: "ulpExp x \<le> e" using assms(2) by (simp add: ulpExp_def)
  define g where "g = ulpExp x"
  define k where "k = nat (e - g)"
  have ek: "e = g + int k" using ue by (simp add: k_def g_def)
  have "(2::real) powi (g + int k) = 2 powi g * 2 powi int k"
    by (rule power_int_add) simp
  then have pk: "(2::real) powi e = 2 powi g * 2 ^ k" unfolding ek [symmetric] by (simp add: power_int_of_nat)
  have pu: "(0::real) < 2 powi g" by (rule zero_less_power_int) simp
  have xg: "x = real_of_int (m * 2 ^ k) * 2 powi g" unfolding x_def pk by simp
  have "x / 2 powi g = real_of_int (m * 2 ^ k)" using pu by (subst xg) simp
  then have "rne (x / 2 powi g) = m * 2 ^ k" by (simp only: rne_int)
  then have v: "real_of_int (rne (x / 2 powi ulpExp x)) * 2 powi ulpExp x = x"
    unfolding g_def [symmetric] by (simp only: xg [symmetric])
  have "(2::real) powi (53 + e) \<le> 2 powi 1024" using assms(3) by (intro power_int_increasing) simp_all
  then have "\<bar>x\<bar> < 2 ^ 1024" using xu by simp
  then have "fl x = Num x" unfolding fl_def Let_def v by (simp add: abs_less_iff not_le)
  then show ?thesis by (simp add: x_def)
qed

lemma fl_int:
  assumes "\<bar>m\<bar> < 2 ^ 53"
  shows "fl (real_of_int m) = Num (real_of_int m)"
  using fl_exact [OF assms, of 0] by simp

lemma fl_examples:
  "fl 1 = Num 1" "fl 4 = Num 4" "fl 5 = Num 5" "fl 6 = Num 6" "fl 9 = Num 9" "fl 13 = Num 13"
  "fl 16 = Num 16" "fl 25 = Num 25" "fl 100 = Num 100" "fl (- 1) = Num (- 1)"
  using fl_int [of 1] fl_int [of 4] fl_int [of 5] fl_int [of 6] fl_int [of 9] fl_int [of 13]
    fl_int [of 16] fl_int [of 25] fl_int [of 100] fl_int [of "- 1"]
  by simp_all

lemma fl_overflow:
  assumes "2 ^ 1024 \<le> x"
  shows "fl x = PosInf"
proof -
  have x0: "x \<noteq> 0" and xp: "0 < x" using assms by (simp_all add: less_le_trans [rotated])
  have ax: "\<bar>x\<bar> = x" using xp by simp
  define e where "e = ulpExp x"
  have "\<not> ilog2 x + 1 \<le> 1024"
  proof
    assume "ilog2 x + 1 \<le> 1024"
    then have "(2::real) powi (ilog2 x + 1) \<le> 2 powi 1024" by (intro power_int_increasing) simp_all
    with ilog2_bounds(2) [OF x0] ax have "x < 2 powi 1024" by linarith
    with assms show False by simp
  qed
  then have il: "1024 \<le> ilog2 x" by simp
  then have e: "e = ilog2 x - 52" by (simp add: e_def ulpExp_def)
  have pe: "(0::real) < 2 powi e" by (rule zero_less_power_int) simp
  have "(2::real) powi (52 + e) = 2 powi 52 * 2 powi e" by (rule power_int_add) simp
  then have p52: "(2::real) powi ilog2 x = 2 ^ 52 * 2 powi e" by (simp add: e)
  have "2 ^ 52 * 2 powi e \<le> x" using ilog2_bounds(1) [OF x0] ax p52 by simp
  then have "2 ^ 52 \<le> x / 2 powi e" using pe by (simp add: pos_le_divide_eq)
  then have "2 ^ 52 - 1 / 2 \<le> real_of_int (rne (x / 2 powi e))"
    using rne_bounds(1) [of "x / 2 powi e"] by linarith
  then have "4503599627370496 - 1 / 2 \<le> real_of_int (rne (x / 2 powi e))" by simp
  then have "4503599627370496 \<le> rne (x / 2 powi e)" by linarith
  then have "4503599627370496 \<le> real_of_int (rne (x / 2 powi e))" by linarith
  then have "(2::real) ^ 52 \<le> real_of_int (rne (x / 2 powi e))" by simp
  then have A: "2 ^ 52 * 2 powi e \<le> real_of_int (rne (x / 2 powi e)) * 2 powi e"
    using pe by (intro mult_right_mono) simp_all
  have "(2::real) powi 1024 \<le> 2 powi ilog2 x" using il by (intro power_int_increasing) simp_all
  then have "(2::real) ^ 1024 \<le> 2 powi ilog2 x" by simp
  then have "(2::real) ^ 1024 \<le> 2 ^ 52 * 2 powi e" unfolding p52 .
  with A have "2 ^ 1024 \<le> real_of_int (rne (x / 2 powi e)) * 2 powi e" by linarith
  then show ?thesis by (simp add: fl_def Let_def e_def)
qed

text \<open>Every result of the arithmetic is a special value or a multiple of the least
  positive double.\<close>

lemma onGrid_0 [simp]: "onGrid 0"
  unfolding onGrid_def by (intro exI [of _ 0]) simp

lemma gridNum_fl [simp]: "gridNum (fl x)"
  using fl_onGrid [of x] by (cases "fl x") (simp_all add: gridNum_def)

lemma gridNum_js_mul [simp]: "gridNum (js_mul x y)"
  by (cases x; cases y) (simp_all add: gridNum_def [of PosInf] gridNum_def [of NegInf] gridNum_def [of NaN])

lemma gridNum_js_divide [simp]: "gridNum (js_divide x y)"
  by (cases x; cases y)
     (simp_all add: gridNum_def [of PosInf] gridNum_def [of NegInf] gridNum_def [of NaN]
        gridNum_def [of "Num 0"])

lemma gridNum_js_times [simp]: "gridNum (js_times x c)"
  by (simp add: js_times_def)

section \<open>Cosine similarity: results\<close>

lemma js_mul_commute: "js_mul x y = js_mul y x"
  by (cases x; cases y) (simp_all add: mult.commute)

lemma cosLoop_accum:
  assumes "length a = length b"
  shows "cosLoop a b i (d, na, nb) =
     (accum d (drop i (zip a b)), accum na (drop i (zip a a)), accum nb (drop i (zip b b)))"
  using assms
proof (induction "length a - i" arbitrary: i d na nb)
  case 0
  then show ?case by (subst cosLoop.simps) simp
next
  case (Suc n)
  then have i: "i < length a" by simp
  have dr: "drop i (zip xs ys) = (xs ! i, ys ! i) # drop (Suc i) (zip xs ys)"
    if "length xs = length a" "length ys = length a" for xs ys :: "real list"
    using that i by (metis Cons_nth_drop_Suc length_zip min.idem nth_zip)
  have n: "n = length a - Suc i" using Suc.hyps(2) by simp
  show ?case
    by (subst cosLoop.simps)
       (simp add: i Suc.hyps(1) [OF n Suc.prems] dr Suc.prems [symmetric])
qed

lemma cosineSimilarity_accum:
  "length a = length b \<Longrightarrow>
   cosineSimilarity a b =
     js_divide (accum (Num 0) (zip a b))
       (js_mul (js_sqrt (accum (Num 0) (zip a a))) (js_sqrt (accum (Num 0) (zip b b))))"
  by (simp add: cosineSimilarity_def cosLoop_accum)

lemma accum_swap: "accum acc (map (\<lambda>(x, y). (y, x)) ps) = accum acc ps"
  by (induction ps arbitrary: acc) (auto simp: js_mul_commute)

lemma zip_swap: "map (\<lambda>(x, y). (y, x)) (zip a b) = zip b a"
  by (induction a arbitrary: b) (auto simp: zip_Cons1 split: list.splits) 

lemma cosineSimilarity_commute: "cosineSimilarity a b = cosineSimilarity b a"
proof (cases "length a = length b")
  case False
  then show ?thesis by (auto simp: cosineSimilarity_def)
next
  case True
  have "accum (Num 0) (zip a b) = accum (Num 0) (zip b a)"
    using accum_swap [of "Num 0" "zip a b"] by (simp add: zip_swap)
  moreover have "js_mul (js_sqrt (accum (Num 0) (zip a a))) (js_sqrt (accum (Num 0) (zip b b)))
      = js_mul (js_sqrt (accum (Num 0) (zip b b))) (js_sqrt (accum (Num 0) (zip a a)))"
    by (rule js_mul_commute)
  ultimately show ?thesis
    unfolding cosineSimilarity_accum [OF True] cosineSimilarity_accum [OF True [symmetric]]
    by simp
qed

lemma accum_snoc:
  "accum acc (ps @ [(x, y)]) = js_add (accum acc ps) (js_mul (Num x) (Num y))"
  by (induction ps arbitrary: acc) auto

lemma prodSum_snoc [simp]: "prodSum (ps @ [(x, y)]) = prodSum ps + x * y"
  by (simp add: prodSum_def)

lemma absSum_snoc [simp]: "absSum (ps @ [(x, y)]) = absSum ps + \<bar>x * y\<bar>"
  by (simp add: absSum_def)

lemma prodSum_Nil [simp]: "prodSum [] = 0"
  by (simp add: prodSum_def)
lemma absSum_Nil [simp]: "absSum [] = 0"
  by (simp add: absSum_def)

lemma prodSum_zero: "\<forall>(x, y) \<in> set ps. x = 0 \<Longrightarrow> prodSum ps = 0"
  by (induction ps) (auto simp: prodSum_def)

lemma inRange_prod:
  assumes "inRange x" "inRange y"
  shows "x * y = 0 \<or> (1 / 2 ^ 1000 \<le> \<bar>x * y\<bar> \<and> \<bar>x * y\<bar> \<le> 2 ^ 1000)"
proof (cases "x = 0 \<or> y = 0")
  case True
  then show ?thesis by auto
next
  case False
  with assms have x: "1 / 2 ^ 500 \<le> \<bar>x\<bar>" "\<bar>x\<bar> \<le> 2 ^ 500"
    and y: "1 / 2 ^ 500 \<le> \<bar>y\<bar>" "\<bar>y\<bar> \<le> 2 ^ 500"
    by (auto simp: inRange_def)
  have "(1 / 2 ^ 500) * (1 / 2 ^ 500) \<le> \<bar>x\<bar> * \<bar>y\<bar>"
    using x(1) y(1) by (intro mult_mono) simp_all
  moreover have "\<bar>x\<bar> * \<bar>y\<bar> \<le> 2 ^ 500 * 2 ^ 500"
    using x(2) y(2) by (intro mult_mono) simp_all
  moreover have "(1 / 2 ^ 500) * (1 / 2 ^ 500) = (1::real) / 2 ^ 1000"
    by (simp add: power_add [symmetric])
  moreover have "(2::real) ^ 500 * 2 ^ 500 = 2 ^ 1000" by (simp add: power_add [symmetric])
  ultimately show ?thesis by (simp add: abs_mult)
qed

text \<open>A product of two components in range is rounded with a relative error.\<close>

lemma fl_prod:
  assumes "inRange x" "inRange y"
  shows "\<exists>p. fl (x * y) = Num p \<and> \<bar>p - x * y\<bar> \<le> \<bar>x * y\<bar> / 2 ^ 53"
proof -
  from inRange_prod [OF assms]
  have r: "x * y = 0 \<or> (1 / 2 ^ 1000 \<le> \<bar>x * y\<bar> \<and> \<bar>x * y\<bar> \<le> 2 ^ 1000)" .
  have a: "x * y = 0 \<or> 1 / 2 ^ 1022 \<le> \<bar>x * y\<bar>"
  proof -
    have "(1::real) / 2 ^ 1022 \<le> 1 / 2 ^ 1000" by simp
    with r show ?thesis by linarith
  qed
  have b: "\<bar>x * y\<bar> \<le> 2 ^ 1023"
  proof -
    have "(2::real) ^ 1000 \<le> 2 ^ 1023" by simp
    with r show ?thesis by fastforce
  qed
  from fl_error_rel [OF a b] show ?thesis .
qed

lemma absSum_bound:
  assumes "\<forall>(x, y) \<in> set ps. inRange x \<and> inRange y"
  shows "0 \<le> absSum ps \<and> absSum ps \<le> real (length ps) * 2 ^ 1000"
  using assms
proof (induction ps rule: rev_induct)
  case Nil
  show ?case by simp
next
  case (snoc p ps)
  obtain x y where p: "p = (x, y)" by (cases p)
  from snoc.prems have "inRange x" "inRange y" by (simp_all add: p)
  from inRange_prod [OF this] have "\<bar>x * y\<bar> \<le> 2 ^ 1000" by fastforce
  moreover from snoc have "0 \<le> absSum ps \<and> absSum ps \<le> real (length ps) * 2 ^ 1000" by simp
  ultimately show ?case by (simp add: p algebra_simps)
qed

lemma sq_inRange:
  "\<forall>(x, y) \<in> set ps. y = x \<and> inRange x \<Longrightarrow> \<forall>(x, y) \<in> set ps. inRange x \<and> inRange y"
  by auto

lemma sqSum_abs:
  assumes "\<forall>(x, y) \<in> set ps. y = x \<and> inRange x"
  shows "prodSum ps = absSum ps"
proof -
  have "map (\<lambda>(x, y). x * y) ps = map (\<lambda>(x, y). \<bar>x * y\<bar>) ps"
    using assms by (intro map_cong) auto
  then show ?thesis unfolding prodSum_def absSum_def by (rule arg_cong)
qed

lemma sqSum_bounds:
  assumes "\<forall>(x, y) \<in> set ps. y = x \<and> inRange x"
  shows "0 \<le> prodSum ps" and "prodSum ps \<le> real (length ps) * 2 ^ 1000"
  using absSum_bound [OF sq_inRange [OF assms]] sqSum_abs [OF assms] by simp_all

lemma sqSum_cases:
  assumes "\<forall>(x, y) \<in> set ps. y = x \<and> inRange x"
  shows "(\<forall>(x, y) \<in> set ps. x = 0) \<or> 1 / 2 ^ 1000 \<le> prodSum ps"
  using assms
proof (induction ps rule: rev_induct)
  case Nil
  show ?case by simp
next
  case (snoc p ps)
  obtain x y where p: "p = (x, y)" by (cases p)
  from snoc.prems have yx: "y = x" and r: "inRange x" and rest: "\<forall>(x, y) \<in> set ps. y = x \<and> inRange x"
    by (simp_all add: p)
  have ih2: "(\<forall>(x, y) \<in> set ps. x = 0) \<or> 1 / 2 ^ 1000 \<le> prodSum ps" using snoc.IH rest by simp
  have nn: "0 \<le> prodSum ps" using sqSum_bounds(1) [OF rest] .
  from inRange_prod [OF r r] have c: "x * x = 0 \<or> 1 / 2 ^ 1000 \<le> \<bar>x * x\<bar>" by fastforce
  have xx: "\<bar>x * x\<bar> = x * x" by simp
  show ?case
  proof (cases "x = 0")
    case True
    with ih2 show ?thesis by (auto simp: p yx)
  next
    case False
    with c xx have "1 / 2 ^ 1000 \<le> x * x" by simp
    with nn have "1 / 2 ^ 1000 \<le> prodSum ps + x * x" by linarith
    then show ?thesis by (simp add: p yx)
  qed
qed

text \<open>The accumulated sum of squares, within the relative error of two roundings a step.\<close>

lemma accum_squares:
  assumes "\<forall>(x, y) \<in> set ps. y = x \<and> inRange x" "length ps \<le> 2 ^ 20"
  shows "\<exists>t. accum (Num 0) ps = Num t
             \<and> rL ^ (2 * length ps) * prodSum ps \<le> t
             \<and> t \<le> rU ^ (2 * length ps) * prodSum ps"
  using assms
proof (induction ps rule: rev_induct)
  case Nil
  show ?case by simp
next
  case (snoc p ps)
  obtain x y where p: "p = (x, y)" by (cases p)
  from snoc.prems have yx: "y = x" and r: "inRange x"
    and rest: "\<forall>(x, y) \<in> set ps. y = x \<and> inRange x" and len: "Suc (length ps) \<le> 2 ^ 20"
    by (simp_all add: p)
  define n where "n = length ps"
  define S where "S = prodSum ps"
  from snoc.IH [OF rest] len obtain t where t: "accum (Num 0) ps = Num t"
    and tl: "rL ^ (2 * n) * S \<le> t" and tu: "t \<le> rU ^ (2 * n) * S"
    unfolding n_def S_def by auto
  have all: "\<forall>(x, y) \<in> set (ps @ [p]). y = x \<and> inRange x" using snoc.prems(1) .
  have S0: "0 \<le> S" unfolding S_def by (rule sqSum_bounds(1) [OF rest])
  have Sn: "S \<le> real n * 2 ^ 1000" unfolding S_def n_def by (rule sqSum_bounds(2) [OF rest])
  define q where "q = x * x"
  have q0: "0 \<le> q" by (simp add: q_def)
  from inRange_prod [OF r r] have q1: "q \<le> 2 ^ 1000" unfolding q_def by fastforce
  from fl_prod [OF r r] obtain ph where ph: "fl (x * x) = Num ph" and pe: "\<bar>ph - q\<bar> \<le> \<bar>q\<bar> / 2 ^ 53"
    unfolding q_def by blast
  have phl: "rL * q \<le> ph" and phu: "ph \<le> rU * q"
    using rel_bounds [OF pe q0] by simp_all
  have m1: "2 * n + 1 \<le> 2 ^ 22" and m2: "2 * n \<le> 2 ^ 22" using len by (simp_all add: n_def)
  have U1: "rU ^ (2 * n + 1) \<le> 2"
    using rU_power_le [OF m1] by (rule order_trans) simp
  have L1: "1 / 2 \<le> rL ^ (2 * n + 1)"
    using rL_power_ge [OF m1] by (rule order_trans [rotated]) simp
  have Umono: "rU ^ (2 * n) \<le> rU ^ (2 * n + 1)" using rU_pos by (intro power_increasing) simp_all
  have Lmono: "rL ^ (2 * n + 1) \<le> rL ^ (2 * n)" using rL_pos by (intro power_decreasing) simp_all
  define z where "z = t + ph"
  have zu: "z \<le> rU ^ (2 * n + 1) * (S + q)"
  proof -
    have "t \<le> rU ^ (2 * n + 1) * S" using tu Umono S0 by (meson mult_right_mono order_trans)
    moreover have "ph \<le> rU ^ (2 * n + 1) * q"
    proof -
      have "rU \<le> rU ^ (2 * n + 1)" using rU_pos by (metis power_increasing power_one_right le_add2 add.commute)
      then have "rU * q \<le> rU ^ (2 * n + 1) * q" using q0 by (rule mult_right_mono)
      with phu show ?thesis by linarith
    qed
    ultimately show ?thesis by (simp add: z_def algebra_simps)
  qed
  have zl: "rL ^ (2 * n + 1) * (S + q) \<le> z"
  proof -
    have "rL ^ (2 * n + 1) * S \<le> t" using tl Lmono S0 by (meson mult_right_mono order_trans)
    moreover have "rL ^ (2 * n + 1) * q \<le> ph"
    proof -
      have "rL ^ (2 * n + 1) \<le> rL" using rL_pos by (metis power_decreasing power_one_right le_add2 add.commute less_imp_le)
      then have "rL ^ (2 * n + 1) * q \<le> rL * q" using q0 by (rule mult_right_mono)
      with phl show ?thesis by linarith
    qed
    ultimately show ?thesis by (simp add: z_def algebra_simps)
  qed
  have Sq: "prodSum (ps @ [p]) = S + q" by (simp add: p yx S_def q_def)
  have Sq0: "0 \<le> S + q" using S0 q0 by simp
  have z0: "0 \<le> z"
  proof -
    have "0 \<le> rL ^ (2 * n + 1) * (S + q)" using Sq0 rL_pos by simp
    with zl show ?thesis by linarith
  qed
  have zr1: "z = 0 \<or> 1 / 2 ^ 1022 \<le> \<bar>z\<bar>"
  proof (cases "S + q = 0")
    case True
    with zu zl have "z = 0" by simp
    then show ?thesis by simp
  next
    case False
    have "\<not> (\<forall>(x, y) \<in> set (ps @ [p]). x = 0)"
    proof
      assume a: "\<forall>(x, y) \<in> set (ps @ [p]). x = 0"
      then have "x = 0" by (simp add: p)
      moreover from a have "\<forall>(x, y) \<in> set ps. x = 0" by simp
      then have "S = 0" unfolding S_def by (rule prodSum_zero)
      ultimately show False using False by (simp add: q_def)
    qed
    with sqSum_cases [OF all] have "1 / 2 ^ 1000 \<le> prodSum (ps @ [p])" by blast
    then have "1 / 2 ^ 1000 \<le> S + q" unfolding Sq .
    then have "1 / 2 * (1 / 2 ^ 1000) \<le> rL ^ (2 * n + 1) * (S + q)"
      using L1 by (intro mult_mono) simp_all
    with zl have "1 / 2 * (1 / 2 ^ 1000) \<le> z" by linarith
    moreover have "(1::real) / 2 ^ 1022 \<le> 1 / 2 * (1 / 2 ^ 1000)" by simp
    ultimately show ?thesis using z0 by linarith
  qed
  have zr2: "\<bar>z\<bar> \<le> 2 ^ 1023"
  proof -
    have "real n \<le> 2 ^ 20" using len unfolding n_def
      by (metis Suc_leD of_nat_le_iff of_nat_numeral of_nat_power)
    then have "real n * 2 ^ 1000 \<le> 2 ^ 20 * 2 ^ 1000" by (intro mult_right_mono) simp_all
    with Sn q1 have "S + q \<le> 2 ^ 20 * 2 ^ 1000 + 2 ^ 1000" by linarith
    then have "rU ^ (2 * n + 1) * (S + q) \<le> 2 * (2 ^ 20 * 2 ^ 1000 + 2 ^ 1000)"
      using U1 Sq0 by (intro mult_mono) simp_all
    also have "\<dots> \<le> (2::real) ^ 1023" by simp
    finally show ?thesis using zu z0 by linarith
  qed
  from fl_error_rel [OF zr1 zr2] obtain t' where t': "fl z = Num t'" and te: "\<bar>t' - z\<bar> \<le> \<bar>z\<bar> / 2 ^ 53"
    by blast
  have tl': "rL * z \<le> t'" and tu': "t' \<le> rU * z"
    using rel_bounds [OF te z0] by simp_all
  have "rL * (rL ^ (2 * n + 1) * (S + q)) \<le> rL * z" using zl rL_pos by (intro mult_left_mono) simp_all
  with tl' have lo: "rL ^ (2 * Suc n) * (S + q) \<le> t'" by (simp add: algebra_simps)
  have "rU * z \<le> rU * (rU ^ (2 * n + 1) * (S + q))" using zu rU_pos by (intro mult_left_mono) simp_all
  with tu' have hi: "t' \<le> rU ^ (2 * Suc n) * (S + q)" by (simp add: algebra_simps)
  have "accum (Num 0) (ps @ [p]) = Num t'"
    by (simp add: p accum_snoc t ph yx z_def t' [unfolded z_def])
  with lo hi show ?case by (simp add: Sq n_def)
qed

text \<open>The accumulated dot product, bounded by the sum of the absolute products.\<close>

lemma accum_dot:
  assumes "\<forall>(x, y) \<in> set ps. inRange x \<and> inRange y" "length ps \<le> 2 ^ 20"
  shows "\<exists>t. accum (Num 0) ps = Num t
             \<and> \<bar>t\<bar> \<le> rU ^ (2 * length ps) * (absSum ps + real (length ps) / 2 ^ 1075)"
  using assms
proof (induction ps rule: rev_induct)
  case Nil
  show ?case by simp
next
  case (snoc p ps)
  obtain x y where p: "p = (x, y)" by (cases p)
  from snoc.prems have rx: "inRange x" and ry: "inRange y"
    and rest: "\<forall>(x, y) \<in> set ps. inRange x \<and> inRange y" and len: "Suc (length ps) \<le> 2 ^ 20"
    by (simp_all add: p)
  define n where "n = length ps"
  define P where "P = absSum ps"
  define h :: real where "h = 1 / 2 ^ 1075"
  from snoc.IH [OF rest] len obtain t where t: "accum (Num 0) ps = Num t"
    and tb: "\<bar>t\<bar> \<le> rU ^ (2 * n) * (P + real n * h)"
    unfolding n_def P_def h_def by auto
  have P0: "0 \<le> P" and Pn: "P \<le> real n * 2 ^ 1000"
    unfolding P_def n_def using absSum_bound [OF rest] by simp_all
  define q where "q = x * y"
  from inRange_prod [OF rx ry] have q1: "\<bar>q\<bar> \<le> 2 ^ 1000" unfolding q_def by fastforce
  from fl_prod [OF rx ry] obtain ph where ph: "fl (x * y) = Num ph" and pe: "\<bar>ph - q\<bar> \<le> \<bar>q\<bar> / 2 ^ 53"
    unfolding q_def by blast
  from pe have "\<bar>ph - q\<bar> \<le> \<bar>q\<bar> / 2 ^ 53 + 0" by simp
  from abs_bounds [OF this] have phb: "\<bar>ph\<bar> \<le> rU * \<bar>q\<bar>" by simp
  have m1: "2 * n + 1 \<le> 2 ^ 22" using len by (simp add: n_def)
  have U1: "rU ^ (2 * n + 1) \<le> 2"
    using rU_power_le [OF m1] by (rule order_trans) simp
  have Umono: "rU ^ (2 * n) \<le> rU ^ (2 * n + 1)" using rU_pos by (intro power_increasing) simp_all
  have U1': "rU \<le> rU ^ (2 * n + 1)"
    using rU_pos by (metis power_increasing power_one_right le_add2 add.commute)
  have h0: "0 \<le> h" by (simp add: h_def)
  have nh0: "0 \<le> P + real n * h" using P0 h0 by simp
  define z where "z = t + ph"
  have zb: "\<bar>z\<bar> \<le> rU ^ (2 * n + 1) * (P + \<bar>q\<bar> + real n * h)"
  proof -
    have "\<bar>t\<bar> \<le> rU ^ (2 * n + 1) * (P + real n * h)"
      using tb Umono nh0 by (meson mult_right_mono order_trans)
    moreover have "\<bar>ph\<bar> \<le> rU ^ (2 * n + 1) * \<bar>q\<bar>"
    proof -
      have "rU * \<bar>q\<bar> \<le> rU ^ (2 * n + 1) * \<bar>q\<bar>" using U1' by (rule mult_right_mono) simp
      with phb show ?thesis by linarith
    qed
    moreover have "\<bar>z\<bar> \<le> \<bar>t\<bar> + \<bar>ph\<bar>" unfolding z_def by linarith
    ultimately show ?thesis by (simp add: algebra_simps)
  qed
  have zr: "\<bar>z\<bar> \<le> 2 ^ 1023"
  proof -
    have rn: "real n \<le> 2 ^ 20" using len unfolding n_def
      by (metis Suc_leD of_nat_le_iff of_nat_numeral of_nat_power)
    then have "real n * 2 ^ 1000 \<le> 2 ^ 20 * 2 ^ 1000" by (intro mult_right_mono) simp_all
    moreover have "real n * h \<le> 2 ^ 20 * 1" using rn unfolding h_def by (intro mult_mono) simp_all
    ultimately have "P + \<bar>q\<bar> + real n * h \<le> 2 ^ 20 * 2 ^ 1000 + 2 ^ 1000 + 2 ^ 20"
      using Pn q1 by linarith
    moreover have "0 \<le> P + \<bar>q\<bar> + real n * h" using nh0 by simp
    ultimately have "rU ^ (2 * n + 1) * (P + \<bar>q\<bar> + real n * h)
        \<le> 2 * (2 ^ 20 * 2 ^ 1000 + 2 ^ 1000 + 2 ^ 20)"
      using U1 by (intro mult_mono) simp_all
    also have "\<dots> \<le> (2::real) ^ 1023" by simp
    finally show ?thesis using zb by linarith
  qed
  from fl_error_abs [OF zr] obtain t' where t': "fl z = Num t'"
    and te: "\<bar>t' - z\<bar> \<le> \<bar>z\<bar> / 2 ^ 53 + h" unfolding h_def by blast
  from abs_bounds [OF te] have "\<bar>t'\<bar> \<le> rU * \<bar>z\<bar> + h" .
  moreover have "rU * \<bar>z\<bar> \<le> rU * (rU ^ (2 * n + 1) * (P + \<bar>q\<bar> + real n * h))"
    using zb rU_pos by (intro mult_left_mono) simp_all
  moreover have "h \<le> rU ^ (2 * Suc n) * h"
  proof -
    have "1 \<le> rU ^ (2 * Suc n)" using rU_pos by (intro one_le_power) simp
    then have "1 * h \<le> rU ^ (2 * Suc n) * h" using h0 by (rule mult_right_mono)
    then show ?thesis by simp
  qed
  ultimately have "\<bar>t'\<bar> \<le> rU ^ (2 * Suc n) * (P + \<bar>q\<bar> + real n * h) + rU ^ (2 * Suc n) * h"
    by (simp add: algebra_simps)
  then have hi: "\<bar>t'\<bar> \<le> rU ^ (2 * Suc n) * (P + \<bar>q\<bar> + real (Suc n) * h)"
    by (simp add: algebra_simps)
  have "accum (Num 0) (ps @ [p]) = Num t'"
    by (simp add: p accum_snoc t ph z_def t' [unfolded z_def])
  with hi show ?case by (simp add: p n_def P_def q_def h_def)
qed

lemma cs_step:
  fixes d x y na nb :: real
  assumes "d * d \<le> na * nb" "0 \<le> na" "0 \<le> nb"
  shows "(d + x * y) * (d + x * y) \<le> (na + x * x) * (nb + y * y)"
proof -
  have "(d * (x * y)) * (d * (x * y)) = (d * d) * ((x * x) * (y * y))" by (simp add: algebra_simps)
  also have "\<dots> \<le> (na * nb) * ((x * x) * (y * y))"
    using assms(1) by (intro mult_right_mono) simp_all
  also have "\<dots> = (na * (y * y)) * (nb * (x * x))" by (simp add: algebra_simps)
  finally have sq: "(d * (x * y))\<^sup>2 \<le> (na * (y * y)) * (nb * (x * x))" by (simp add: power2_eq_square)
  have nn1: "0 \<le> na * (y * y)" and nn2: "0 \<le> nb * (x * x)" using assms by simp_all
  have "\<bar>d * (x * y)\<bar> = sqrt ((d * (x * y))\<^sup>2)" by simp
  also have "\<dots> \<le> sqrt ((na * (y * y)) * (nb * (x * x)))" using sq by (rule real_sqrt_le_mono)
  also have "\<dots> \<le> (na * (y * y) + nb * (x * x)) / 2" using nn1 nn2 by (rule arith_geo_mean_sqrt)
  finally have "2 * (d * (x * y)) \<le> na * (y * y) + nb * (x * x)" by simp
  then show ?thesis using assms(1) by (simp add: algebra_simps)
qed

lemma prodSum_Cons [simp]: "prodSum ((x, y) # ps) = x * y + prodSum ps"
  by (simp add: prodSum_def)

lemma absSum_Cons [simp]: "absSum ((x, y) # ps) = \<bar>x * y\<bar> + absSum ps"
  by (simp add: absSum_def)

lemma absSum_nonneg: "0 \<le> absSum ps"
  by (induction ps) (auto simp: absSum_def)

lemma sq_nonneg: "0 \<le> prodSum (zip a a)"
  by (induction a) auto

lemma absSum_cauchy_schwarz:
  assumes "length a = length b"
  shows "absSum (zip a b) \<le> sqrt (prodSum (zip a a)) * sqrt (prodSum (zip b b))"
proof -
  have "absSum (zip a b) * absSum (zip a b) \<le> prodSum (zip a a) * prodSum (zip b b)"
    using assms
  proof (induction a b rule: list_induct2)
    case Nil
    show ?case by simp
  next
    case (Cons x xs y ys)
    from cs_step [OF Cons.IH sq_nonneg sq_nonneg, of "\<bar>x\<bar>" "\<bar>y\<bar>"]
    show ?case by (simp add: abs_mult algebra_simps)
  qed
  then have "(absSum (zip a b))\<^sup>2 \<le> prodSum (zip a a) * prodSum (zip b b)"
    by (simp add: power2_eq_square)
  then have "sqrt ((absSum (zip a b))\<^sup>2) \<le> sqrt (prodSum (zip a a) * prodSum (zip b b))"
    by (rule real_sqrt_le_mono)
  then show ?thesis using absSum_nonneg [of "zip a b"] by (simp add: real_sqrt_mult)
qed

lemma moderate_inRange:
  assumes "moderate v"
  shows "\<forall>x \<in> set v. inRange x" and "length v \<le> 2 ^ 20" and "\<exists>x \<in> set v. x \<noteq> 0"
proof -
  have a: "(1::real) / 2 ^ 500 \<le> 1 / 10 ^ 150" by simp
  have b: "(10::real) ^ 150 \<le> 2 ^ 500" by simp
  show "\<forall>x \<in> set v. inRange x"
  proof
    fix x assume "x \<in> set v"
    with assms have "x = 0 \<or> (1 / 10 ^ 150 \<le> \<bar>x\<bar> \<and> \<bar>x\<bar> \<le> 10 ^ 150)" by (simp add: moderate_def)
    with a b show "inRange x" unfolding inRange_def by linarith
  qed
  have "(10::nat) ^ 6 \<le> 2 ^ 20" by simp
  with assms show "length v \<le> 2 ^ 20" unfolding moderate_def by linarith
  from assms show "\<exists>x \<in> set v. x \<noteq> 0" by (simp add: moderate_def)
qed

text \<open>The computed norm of a moderate vector: the sum of squares and its square root.\<close>

lemma norm_moderate:
  assumes "moderate v"
  shows "\<exists>t s. accum (Num 0) (zip v v) = Num t \<and> js_sqrt (Num t) = Num s
           \<and> rL ^ (2 * length v) * prodSum (zip v v) \<le> t
           \<and> t \<le> rU ^ (2 * length v) * prodSum (zip v v)
           \<and> 1 / 2 ^ 1000 \<le> prodSum (zip v v)
           \<and> 1 / 2 ^ 1002 \<le> t \<and> t \<le> 2 ^ 1022
           \<and> rL * sqrt t \<le> s \<and> s \<le> rU * sqrt t
           \<and> 1 / 2 ^ 501 \<le> sqrt t \<and> sqrt t \<le> 2 ^ 511"
proof -
  note m = moderate_inRange [OF assms]
  define n where "n = length v"
  define S where "S = prodSum (zip v v)"
  have sq: "\<forall>(x, y) \<in> set (zip v v). y = x \<and> inRange x" using m(1) by (auto simp: zip_same)
  have len: "length (zip v v) \<le> 2 ^ 20" using m(2) by simp
  from accum_squares [OF sq len] obtain t where t: "accum (Num 0) (zip v v) = Num t"
    and tl: "rL ^ (2 * n) * S \<le> t" and tu: "t \<le> rU ^ (2 * n) * S"
    unfolding n_def S_def by auto
  have "\<not> (\<forall>(x, y) \<in> set (zip v v). x = 0)" using m(3) by (auto simp: zip_same)
  with sqSum_cases [OF sq] have Sl: "1 / 2 ^ 1000 \<le> S" unfolding S_def by blast
  have Su: "S \<le> real n * 2 ^ 1000" using sqSum_bounds(2) [OF sq] by (simp add: S_def n_def)
  have S0: "0 \<le> S" using sqSum_bounds(1) [OF sq] by (simp add: S_def)
  have m2: "2 * n \<le> 2 ^ 22" using m(2) by (simp add: n_def)
  have rn: "real n \<le> 2 ^ 20" using m(2) unfolding n_def
    by (metis of_nat_le_iff of_nat_numeral of_nat_power)
  have t1: "1 / 2 ^ 1002 \<le> t"
  proof -
    have "(1 - 1 / 2 ^ 31) * (1 / 2 ^ 1000) \<le> rL ^ (2 * n) * S"
      using rL_power_ge [OF m2] Sl by (intro mult_mono) simp_all
    moreover have "(1::real) / 2 ^ 1002 \<le> (1 - 1 / 2 ^ 31) * (1 / 2 ^ 1000)" by simp
    ultimately show ?thesis using tl by linarith
  qed
  have t2: "t \<le> 2 ^ 1022"
  proof -
    have "real n * 2 ^ 1000 \<le> 2 ^ 20 * 2 ^ 1000" using rn by (intro mult_right_mono) simp_all
    with Su have "S \<le> 2 ^ 20 * 2 ^ 1000" by linarith
    then have "rU ^ (2 * n) * S \<le> (1 + 1 / 2 ^ 30) * (2 ^ 20 * 2 ^ 1000)"
      using rU_power_le [OF m2] S0 by (intro mult_mono) simp_all
    moreover have "(1 + 1 / 2 ^ 30) * (2 ^ 20 * 2 ^ 1000) \<le> (2::real) ^ 1022" by simp
    ultimately show ?thesis using tu by linarith
  qed
  have t0: "0 \<le> t" using t1 by (rule order_trans [rotated]) simp
  have r1: "1 / 2 ^ 501 \<le> sqrt t"
  proof -
    have "sqrt ((1 / 2 ^ 501)\<^sup>2) \<le> sqrt t"
    proof (rule real_sqrt_le_mono)
      have "((1::real) / 2 ^ 501)\<^sup>2 = 1 / 2 ^ 1002" by (simp add: power_divide power_mult [symmetric])
      with t1 show "(1 / 2 ^ 501)\<^sup>2 \<le> t" by simp
    qed
    then show ?thesis by simp
  qed
  have r2: "sqrt t \<le> 2 ^ 511"
  proof -
    have "sqrt t \<le> sqrt ((2 ^ 511)\<^sup>2)"
    proof (rule real_sqrt_le_mono)
      have "((2::real) ^ 511)\<^sup>2 = 2 ^ 1022" by (simp add: power_mult [symmetric])
      with t2 show "t \<le> (2 ^ 511)\<^sup>2" by simp
    qed
    then show ?thesis by simp
  qed
  have sq0: "0 \<le> sqrt t" using t0 by simp
  have ab: "\<bar>sqrt t\<bar> = sqrt t" using sq0 by (rule abs_of_nonneg)
  have a: "sqrt t = 0 \<or> 1 / 2 ^ 1022 \<le> \<bar>sqrt t\<bar>"
  proof -
    have "(1::real) / 2 ^ 1022 \<le> 1 / 2 ^ 501" by simp
    with r1 have "1 / 2 ^ 1022 \<le> sqrt t" by linarith
    then show ?thesis unfolding ab by (rule disjI2)
  qed
  have b: "\<bar>sqrt t\<bar> \<le> 2 ^ 1023"
  proof -
    have "(2::real) ^ 511 \<le> 2 ^ 1023" by simp
    with r2 show ?thesis unfolding ab by linarith
  qed
  from fl_error_rel [OF a b] obtain s where s: "fl (sqrt t) = Num s"
    and se: "\<bar>s - sqrt t\<bar> \<le> \<bar>sqrt t\<bar> / 2 ^ 53" by blast
  note sb = rel_bounds [OF se sq0]
  have "js_sqrt (Num t) = Num s" using t0 s by simp
  with t tl tu Sl t1 t2 sb r1 r2 show ?thesis unfolding n_def S_def by blast
qed

lemma quotient_bound:
  fixes d D A B G :: real
  assumes "\<bar>d\<bar> \<le> A * G" "B * G \<le> D" "0 < G" "0 < B"
  shows "\<bar>d / D\<bar> \<le> A / B"
proof -
  have D: "0 < D" using assms(2-4) by (meson mult_pos_pos less_le_trans)
  have "\<bar>d\<bar> * B \<le> A * G * B" using assms(1,4) by (intro mult_right_mono) simp_all
  also have "\<dots> = A * (B * G)" by simp
  finally have "\<bar>d\<bar> * B \<le> A * (B * G)" .
  moreover have "0 \<le> A"
  proof -
    have "0 \<le> A * G" using assms(1) by linarith
    then show ?thesis using assms(3) by (simp add: zero_le_mult_iff)
  qed
  then have "A * (B * G) \<le> A * D" using assms(2) by (intro mult_left_mono) simp_all
  ultimately have "\<bar>d\<bar> * B \<le> A * D" by linarith
  then have "\<bar>d\<bar> / D \<le> A / B" using D assms(4) by (simp add: field_simps)
  then show ?thesis using D by simp
qed

lemma sqrt_scaled:
  assumes "c ^ (2 * n) * S \<le> t" "0 \<le> c" "0 \<le> S"
  shows "c ^ n * sqrt S \<le> sqrt t"
proof -
  have "sqrt (c ^ (2 * n) * S) \<le> sqrt t" using assms(1) by (rule real_sqrt_le_mono)
  moreover have "sqrt (c ^ (2 * n) * S) = c ^ n * sqrt S"
  proof -
    have "c ^ (2 * n) = (c ^ n)\<^sup>2" by (simp add: power_mult [symmetric] mult.commute)
    then show ?thesis using assms(2) by (simp add: real_sqrt_mult)
  qed
  ultimately show ?thesis by simp
qed

lemma cosineSimilarity_bounded:
  assumes ma: "moderate a" and mb: "moderate b" and len: "length a = length b"
  shows "\<exists>r. cosineSimilarity a b = Num r \<and> \<bar>r\<bar> \<le> 1 + 1 / 10 ^ 8"
proof -
  define n where "n = length a"
  define SA where "SA = prodSum (zip a a)"
  define SB where "SB = prodSum (zip b b)"
  define G where "G = sqrt SA * sqrt SB"
  define h :: real where "h = 1 / 2 ^ 1075"
  note m = moderate_inRange [OF ma] moderate_inRange [OF mb]
  from norm_moderate [OF ma] obtain tA sA where tA: "accum (Num 0) (zip a a) = Num tA"
    and sA: "js_sqrt (Num tA) = Num sA" and tAl: "rL ^ (2 * n) * SA \<le> tA"
    and SAl: "1 / 2 ^ 1000 \<le> SA"
    and sAl: "rL * sqrt tA \<le> sA" and sAu: "sA \<le> rU * sqrt tA"
    and rAl: "1 / 2 ^ 501 \<le> sqrt tA" and rAu: "sqrt tA \<le> 2 ^ 511"
    unfolding n_def SA_def by blast
  from norm_moderate [OF mb] obtain tB sB where tB: "accum (Num 0) (zip b b) = Num tB"
    and sB: "js_sqrt (Num tB) = Num sB" and tBl: "rL ^ (2 * n) * SB \<le> tB"
    and SBl: "1 / 2 ^ 1000 \<le> SB"
    and sBl: "rL * sqrt tB \<le> sB" and sBu: "sB \<le> rU * sqrt tB"
    and rBl: "1 / 2 ^ 501 \<le> sqrt tB" and rBu: "sqrt tB \<le> 2 ^ 511"
    unfolding n_def SB_def len by blast
  have SA0: "0 \<le> SA" using SAl by (rule order_trans [rotated]) simp
  have SB0: "0 \<le> SB" using SBl by (rule order_trans [rotated]) simp
  have rA0: "0 < sqrt tA" using rAl by (rule less_le_trans [rotated]) simp
  have rB0: "0 < sqrt tB" using rBl by (rule less_le_trans [rotated]) simp
  define R where "R = sqrt tA * sqrt tB"
  have R0: "0 < R" unfolding R_def using rA0 rB0 by simp
  have Rl: "1 / 2 ^ 1002 \<le> R"
  proof -
    have "(1 / 2 ^ 501) * (1 / 2 ^ 501) \<le> sqrt tA * sqrt tB"
      using rAl rBl rA0 rB0 by (intro mult_mono) simp_all
    moreover have "(1 / 2 ^ 501) * (1 / 2 ^ 501) = (1::real) / 2 ^ 1002"
      by (simp add: power_add [symmetric])
    ultimately show ?thesis by (simp add: R_def)
  qed
  have Ru: "R \<le> 2 ^ 1022"
  proof -
    have "sqrt tA * sqrt tB \<le> 2 ^ 511 * 2 ^ 511"
      using rAu rBu rA0 rB0 by (intro mult_mono) simp_all
    moreover have "(2::real) ^ 511 * 2 ^ 511 = 2 ^ 1022" by (simp add: power_add [symmetric])
    ultimately show ?thesis by (simp add: R_def)
  qed
  have lA0: "0 \<le> rL * sqrt tA" using rL_pos rA0 by simp
  have lB0: "0 \<le> rL * sqrt tB" using rL_pos rB0 by simp
  have sA0: "0 \<le> sA" using lA0 sAl by linarith
  have sB0: "0 \<le> sB" using lB0 sBl by linarith
  have uA0: "0 \<le> rU * sqrt tA" using sA0 sAu by linarith
  have uB0: "0 \<le> rU * sqrt tB" using sB0 sBu by linarith
  define w where "w = sA * sB"
  have wl: "rL ^ 2 * R \<le> w"
  proof -
    have "(rL * sqrt tA) * (rL * sqrt tB) \<le> sA * sB"
      using sAl sBl sA0 lB0 by (rule mult_mono)
    then show ?thesis by (simp add: w_def R_def power2_eq_square algebra_simps)
  qed
  have wu: "w \<le> rU ^ 2 * R"
  proof -
    have "sA * sB \<le> (rU * sqrt tA) * (rU * sqrt tB)"
      using sAu sBu uA0 sB0 by (rule mult_mono)
    then show ?thesis by (simp add: w_def R_def power2_eq_square algebra_simps)
  qed
  have L2: "1 / 2 \<le> rL ^ 2"
    using rL_power_ge [of 2] by (rule order_trans [rotated]) simp_all
  have U2: "rU ^ 2 \<le> 2"
    using rU_power_le [of 2] by (rule order_trans) simp_all
  have w1: "1 / 2 ^ 1022 \<le> w"
  proof -
    have "1 / 2 * (1 / 2 ^ 1002) \<le> rL ^ 2 * R" using L2 Rl by (intro mult_mono) simp_all
    moreover have "(1::real) / 2 ^ 1022 \<le> 1 / 2 * (1 / 2 ^ 1002)" by simp
    ultimately show ?thesis using wl by linarith
  qed
  have w0: "0 \<le> w" using w1 by (rule order_trans [rotated]) simp
  have wabs: "\<bar>w\<bar> = w" using w0 by (rule abs_of_nonneg)
  have w2: "w \<le> 2 ^ 1023"
  proof -
    have "rU ^ 2 * R \<le> 2 * 2 ^ 1022" using U2 Ru R0 by (intro mult_mono) simp_all
    with wu show ?thesis by simp
  qed
  have "w = 0 \<or> 1 / 2 ^ 1022 \<le> \<bar>w\<bar>" unfolding wabs using w1 by (rule disjI2)
  moreover have "\<bar>w\<bar> \<le> 2 ^ 1023" unfolding wabs by (rule w2)
  ultimately obtain D where D: "fl w = Num D" and De: "\<bar>D - w\<bar> \<le> \<bar>w\<bar> / 2 ^ 53"
    using fl_error_rel by blast
  have Dl: "rL * w \<le> D" using rel_bounds(1) [OF De w0] .
  have G0: "0 < G"
  proof -
    have "0 < SA" "0 < SB" using SAl SBl by (simp_all add: less_le_trans [rotated])
    then show ?thesis by (simp add: G_def)
  qed
  have RG: "rL ^ (2 * n) * G \<le> R"
  proof -
    have "rL ^ n * sqrt SA \<le> sqrt tA" using tAl rL_pos SA0 by (intro sqrt_scaled) simp_all
    moreover have "rL ^ n * sqrt SB \<le> sqrt tB" using tBl rL_pos SB0 by (intro sqrt_scaled) simp_all
    moreover have "0 \<le> sqrt tA" using rA0 by simp
    moreover have "0 \<le> rL ^ n * sqrt SB" using rL_pos SB0 by simp
    ultimately have "(rL ^ n * sqrt SA) * (rL ^ n * sqrt SB) \<le> sqrt tA * sqrt tB"
      by (rule mult_mono)
    moreover have "(rL ^ n * sqrt SA) * (rL ^ n * sqrt SB) = rL ^ (2 * n) * G"
    proof -
      have "rL ^ (2 * n) = rL ^ n * rL ^ n" by (simp add: mult_2 power_add)
      then show ?thesis by (simp add: G_def)
    qed
    ultimately show ?thesis by (simp add: R_def)
  qed
  have DG: "rL ^ (2 * n + 3) * G \<le> D"
  proof -
    have "rL ^ 2 * (rL ^ (2 * n) * G) \<le> rL ^ 2 * R" using RG rL_pos by (intro mult_left_mono) simp_all
    with wl have "rL ^ 2 * (rL ^ (2 * n) * G) \<le> w" by linarith
    then have "rL * (rL ^ 2 * (rL ^ (2 * n) * G)) \<le> rL * w" using rL_pos by (intro mult_left_mono) simp_all
    with Dl have "rL * (rL ^ 2 * (rL ^ (2 * n) * G)) \<le> D" by linarith
    moreover have "rL * (rL ^ 2 * (rL ^ (2 * n) * G)) = rL ^ (2 * n + 3) * G"
      by (simp add: power_add power2_eq_square power3_eq_cube algebra_simps)
    ultimately show ?thesis by simp
  qed
  have nle: "n \<le> 2 ^ 20" using m(2) by (simp add: n_def)
  have m3: "2 * n + 3 \<le> 2 ^ 22" and m2: "2 * n \<le> 2 ^ 22" using nle by simp_all
  have BL: "1 - 1 / 2 ^ 31 \<le> rL ^ (2 * n + 3)" using rL_power_ge [OF m3] .
  have B0: "0 < rL ^ (2 * n + 3)" using rL_pos by simp
  have D0: "0 < D"
  proof -
    have "0 < rL ^ (2 * n + 3) * G" using B0 G0 by simp
    with DG show ?thesis by linarith
  qed
  have rg: "\<forall>(x, y) \<in> set (zip a b). inRange x \<and> inRange y"
    using m(1) m(4) by (auto dest: set_zip_leftD set_zip_rightD)
  have lz: "length (zip a b) \<le> 2 ^ 20" using nle by (simp add: n_def len)
  from accum_dot [OF rg lz] obtain d where d: "accum (Num 0) (zip a b) = Num d"
    and db: "\<bar>d\<bar> \<le> rU ^ (2 * n) * (absSum (zip a b) + real n * h)"
    by (auto simp: n_def len h_def)
  have PG: "absSum (zip a b) \<le> G" unfolding G_def SA_def SB_def by (rule absSum_cauchy_schwarz [OF len])
  have Gl: "1 / 2 ^ 1000 \<le> G"
  proof -
    have "sqrt ((1 / 2 ^ 500)\<^sup>2) \<le> sqrt SA"
    proof (rule real_sqrt_le_mono)
      have "((1::real) / 2 ^ 500)\<^sup>2 = 1 / 2 ^ 1000" by (simp add: power_divide power_mult [symmetric])
      with SAl show "(1 / 2 ^ 500)\<^sup>2 \<le> SA" by simp
    qed
    then have a: "1 / 2 ^ 500 \<le> sqrt SA" by simp
    have "sqrt ((1 / 2 ^ 500)\<^sup>2) \<le> sqrt SB"
    proof (rule real_sqrt_le_mono)
      have "((1::real) / 2 ^ 500)\<^sup>2 = 1 / 2 ^ 1000" by (simp add: power_divide power_mult [symmetric])
      with SBl show "(1 / 2 ^ 500)\<^sup>2 \<le> SB" by simp
    qed
    then have b: "1 / 2 ^ 500 \<le> sqrt SB" by simp
    have "(1 / 2 ^ 500) * (1 / 2 ^ 500) \<le> sqrt SA * sqrt SB"
      using a b SA0 SB0 by (intro mult_mono) simp_all
    moreover have "(1 / 2 ^ 500) * (1 / 2 ^ 500) = (1::real) / 2 ^ 1000" by (simp add: power_add [symmetric])
    ultimately show ?thesis by (simp add: G_def)
  qed
  have nh: "real n * h \<le> G / 2 ^ 55"
  proof -
    have "real n \<le> 2 ^ 20" using nle by (metis of_nat_le_iff of_nat_numeral of_nat_power)
    then have "real n * h \<le> 2 ^ 20 * h" by (intro mult_right_mono) (simp_all add: h_def)
    moreover have "2 ^ 20 * h = (1 / 2 ^ 1000) / 2 ^ 55" by (simp add: h_def)
    moreover have "(1 / 2 ^ 1000) / 2 ^ 55 \<le> G / 2 ^ 55" using Gl by (rule divide_right_mono) simp
    ultimately show ?thesis by linarith
  qed
  define c1 :: real where "c1 = 1 + 1 / 2 ^ 30"
  define c2 :: real where "c2 = 1 + 1 / 2 ^ 55"
  define c3 :: real where "c3 = 1 - 1 / 2 ^ 31"
  have c0: "0 \<le> c1" "0 \<le> c2" "0 < c3" by (simp_all add: c1_def c2_def c3_def)
  have dG: "\<bar>d\<bar> \<le> (c1 * c2) * G"
  proof -
    have "G / 2 ^ 55 = (1 / 2 ^ 55) * G" by simp
    with PG nh have "absSum (zip a b) + real n * h \<le> G + (1 / 2 ^ 55) * G" by linarith
    also have "\<dots> = c2 * G" by (simp add: c2_def algebra_simps)
    finally have "absSum (zip a b) + real n * h \<le> c2 * G" .
    moreover have "0 \<le> absSum (zip a b) + real n * h" using absSum_nonneg [of "zip a b"] by (simp add: h_def)
    moreover have "rU ^ (2 * n) \<le> c1" unfolding c1_def by (rule rU_power_le [OF m2])
    moreover have "0 \<le> c2 * G" using c0 G0 by simp
    ultimately have "rU ^ (2 * n) * (absSum (zip a b) + real n * h) \<le> c1 * (c2 * G)"
      using c0 by (intro mult_mono) simp_all
    with db have "\<bar>d\<bar> \<le> c1 * (c2 * G)" by linarith
    then show ?thesis by (simp only: mult.assoc)
  qed
  define q where "q = d / D"
  have "\<bar>q\<bar> \<le> (c1 * c2) / rL ^ (2 * n + 3)"
    unfolding q_def using dG DG G0 B0 by (rule quotient_bound)
  also have "\<dots> \<le> (c1 * c2) / c3"
    using BL c0 B0 unfolding c3_def [symmetric] by (intro divide_left_mono) simp_all
  finally have qb: "\<bar>q\<bar> \<le> (c1 * c2) / c3" .
  have "(c1 * c2) / c3 \<le> 2 ^ 1023" by (simp add: c1_def c2_def c3_def)
  with qb have "\<bar>q\<bar> \<le> 2 ^ 1023" by linarith
  from fl_error_abs [OF this] obtain r where r: "fl q = Num r"
    and re: "\<bar>r - q\<bar> \<le> \<bar>q\<bar> / 2 ^ 53 + h" unfolding h_def by blast
  from abs_bounds [OF re] have "\<bar>r\<bar> \<le> rU * \<bar>q\<bar> + h" .
  moreover have "rU * \<bar>q\<bar> \<le> rU * ((c1 * c2) / c3)"
    using qb rU_pos by (intro mult_left_mono) simp_all
  moreover have "rU * ((c1 * c2) / c3) + h \<le> 1 + 1 / 10 ^ 8"
    by (simp add: rU_def h_def c1_def c2_def c3_def)
  ultimately have rb: "\<bar>r\<bar> \<le> 1 + 1 / 10 ^ 8" by linarith
  have "cosineSimilarity a b = js_divide (Num d) (js_mul (Num sA) (Num sB))"
    unfolding cosineSimilarity_accum [OF len] d tA tB sA sB ..
  also have "\<dots> = fl q" using D0 by (simp add: D [unfolded w_def] q_def)
  finally have "cosineSimilarity a b = Num r" by (simp add: r)
  with rb show ?thesis by blast
qed

lemma cosineSimilarity_self:
  assumes "moderate v"
  shows "\<exists>r. cosineSimilarity v v = Num r \<and> \<bar>r - 1\<bar> \<le> 1 / 10 ^ 15"
proof -
  from norm_moderate [OF assms] obtain t s where t: "accum (Num 0) (zip v v) = Num t"
    and s: "js_sqrt (Num t) = Num s"
    and t1: "1 / 2 ^ 1002 \<le> t" and t2: "t \<le> 2 ^ 1022"
    and sl: "rL * sqrt t \<le> s" and su: "s \<le> rU * sqrt t"
    by blast
  have t0: "0 < t" using t1 by (rule less_le_trans [rotated]) simp
  have r0: "0 \<le> sqrt t" using t0 by simp
  have tt: "sqrt t * sqrt t = t" using t0 by simp
  have l0: "0 \<le> rL * sqrt t" using rL_pos r0 by simp
  have s0: "0 \<le> s" using l0 sl by linarith
  have u0: "0 \<le> rU * sqrt t" using s0 su by linarith
  define w where "w = s * s"
  have "(rL * sqrt t) * (rL * sqrt t) \<le> s * s" using sl sl s0 l0 by (rule mult_mono)
  moreover have "(rL * sqrt t) * (rL * sqrt t) = rL ^ 2 * (sqrt t * sqrt t)"
    by (simp add: power2_eq_square)
  ultimately have wl: "rL ^ 2 * t \<le> w" unfolding tt w_def by simp
  have "s * s \<le> (rU * sqrt t) * (rU * sqrt t)" using su su u0 s0 by (rule mult_mono)
  moreover have "(rU * sqrt t) * (rU * sqrt t) = rU ^ 2 * (sqrt t * sqrt t)"
    by (simp add: power2_eq_square)
  ultimately have wu: "w \<le> rU ^ 2 * t" unfolding tt w_def by simp
  have L2: "1 / 2 \<le> rL ^ 2" by (simp add: rL_def power2_eq_square)
  have U2: "rU ^ 2 \<le> 2" by (simp add: rU_def power2_eq_square)
  have w1: "1 / 2 ^ 1022 \<le> w"
  proof -
    have "1 / 2 * (1 / 2 ^ 1002) \<le> rL ^ 2 * t" using L2 t1 by (intro mult_mono) simp_all
    moreover have "(1::real) / 2 ^ 1022 \<le> 1 / 2 * (1 / 2 ^ 1002)" by simp
    ultimately show ?thesis using wl by linarith
  qed
  have w0: "0 \<le> w" using w1 by (rule order_trans [rotated]) simp
  have wabs: "\<bar>w\<bar> = w" using w0 by (rule abs_of_nonneg)
  have w2: "w \<le> 2 ^ 1023"
  proof -
    have "rU ^ 2 * t \<le> 2 * 2 ^ 1022" using U2 t2 t0 by (intro mult_mono) simp_all
    with wu show ?thesis by simp
  qed
  have "w = 0 \<or> 1 / 2 ^ 1022 \<le> \<bar>w\<bar>" unfolding wabs using w1 by (rule disjI2)
  moreover have "\<bar>w\<bar> \<le> 2 ^ 1023" unfolding wabs by (rule w2)
  ultimately obtain D where D: "fl w = Num D" and De: "\<bar>D - w\<bar> \<le> \<bar>w\<bar> / 2 ^ 53"
    using fl_error_rel by blast
  note Db = rel_bounds [OF De w0]
  have "rL * (rL ^ 2 * t) \<le> rL * w" using wl rL_pos by (intro mult_left_mono) simp_all
  with Db(1) have "rL * (rL ^ 2 * t) \<le> D" by linarith
  then have Dl: "rL ^ 3 * t \<le> D" by (simp add: power2_eq_square power3_eq_cube mult.assoc)
  have "rU * w \<le> rU * (rU ^ 2 * t)" using wu rU_pos by (intro mult_left_mono) simp_all
  with Db(2) have "D \<le> rU * (rU ^ 2 * t)" by linarith
  then have Du: "D \<le> rU ^ 3 * t" by (simp add: power2_eq_square power3_eq_cube mult.assoc)
  have L3: "0 < rL ^ 3" using rL_pos by simp
  have U3: "0 < rU ^ 3" using rU_pos by simp
  have D0: "0 < D"
  proof -
    have "0 < rL ^ 3 * t" using L3 t0 by simp
    with Dl show ?thesis by linarith
  qed
  define q where "q = t / D"
  have ql: "1 / rU ^ 3 \<le> q"
  proof -
    have "t \<le> q * (rU ^ 3 * t)"
    proof -
      have "q * D \<le> q * (rU ^ 3 * t)"
        using Du t0 D0 unfolding q_def by (intro mult_left_mono) simp_all
      moreover have "q * D = t" using D0 by (simp add: q_def)
      ultimately show ?thesis by simp
    qed
    then have "1 * t \<le> (q * rU ^ 3) * t" by (simp add: mult.assoc)
    then have "1 \<le> q * rU ^ 3" using t0 by (simp only: mult_le_cancel_right)
    then show ?thesis using U3 by (simp add: pos_divide_le_eq)
  qed
  have qu: "q \<le> 1 / rL ^ 3"
  proof -
    have "q * (rL ^ 3 * t) \<le> t"
    proof -
      have "q * (rL ^ 3 * t) \<le> q * D"
        using Dl t0 D0 unfolding q_def by (intro mult_left_mono) simp_all
      moreover have "q * D = t" using D0 by (simp add: q_def)
      ultimately show ?thesis by simp
    qed
    then have "(q * rL ^ 3) * t \<le> 1 * t" by (simp add: mult.assoc)
    then have "q * rL ^ 3 \<le> 1" using t0 by (simp only: mult_le_cancel_right)
    then show ?thesis using L3 by (simp add: pos_le_divide_eq)
  qed
  have q0: "0 \<le> q" using t0 D0 by (simp add: q_def)
  have qabs: "\<bar>q\<bar> = q" using q0 by (rule abs_of_nonneg)
  have "(1::real) / 2 ^ 1022 \<le> 1 / rU ^ 3" by (rule rU_cube_inverse)
  with ql have "1 / 2 ^ 1022 \<le> q" by linarith
  then have a: "q = 0 \<or> 1 / 2 ^ 1022 \<le> \<bar>q\<bar>" unfolding qabs by (rule disjI2)
  have "1 / rL ^ 3 \<le> (2::real) ^ 1023" by (rule rL_cube_inverse)
  with qu have b: "\<bar>q\<bar> \<le> 2 ^ 1023" unfolding qabs by linarith
  from fl_error_rel [OF a b] obtain r where r: "fl q = Num r" and re: "\<bar>r - q\<bar> \<le> \<bar>q\<bar> / 2 ^ 53"
    by blast
  note rb = rel_bounds [OF re q0]
  have "rL * (1 / rU ^ 3) \<le> rL * q" using ql rL_pos by (intro mult_left_mono) simp_all
  with rb(1) have rl: "rL * (1 / rU ^ 3) \<le> r" by linarith
  have "rU * q \<le> rU * (1 / rL ^ 3)" using qu rU_pos by (intro mult_left_mono) simp_all
  with rb(2) have ru: "r \<le> rU * (1 / rL ^ 3)" by linarith
  have "1 - 1 / 10 ^ 15 \<le> rL * (1 / rU ^ 3)" by (rule round_four_lower)
  moreover have "rU * (1 / rL ^ 3) \<le> 1 + 1 / 10 ^ 15" by (rule round_four_upper)
  ultimately have "\<bar>r - 1\<bar> \<le> 1 / 10 ^ 15" using rl ru by linarith
  have "cosineSimilarity v v = js_divide (Num t) (js_mul (Num s) (Num s))"
    unfolding cosineSimilarity_accum [OF refl] t s ..
  also have "\<dots> = fl q" using D0 by (simp add: D [unfolded w_def] q_def)
  finally have "cosineSimilarity v v = Num r" by (simp add: r)
  with \<open>\<bar>r - 1\<bar> \<le> 1 / 10 ^ 15\<close> show ?thesis by blast
qed

text \<open>Zero vectors.\<close>

lemma accum_zero:
  assumes "\<forall>(x, y) \<in> set ps. x = 0 \<or> y = 0"
  shows "accum (Num 0) ps = Num 0"
  using assms by (induction ps) auto

lemma accum_squares_cases:
  assumes "acc = PosInf \<or> (\<exists>t. acc = Num t \<and> 0 \<le> t)"
  shows "accum acc (zip v v) = PosInf \<or> (\<exists>t. accum acc (zip v v) = Num t \<and> 0 \<le> t)"
  using assms
proof (induction v arbitrary: acc)
  case Nil
  then show ?case by simp
next
  case (Cons x v)
  from fl_nonneg [of "x * x"] have p: "fl (x * x) = PosInf \<or> (\<exists>q. fl (x * x) = Num q \<and> 0 \<le> q)" by simp
  have "js_add acc (fl (x * x)) = PosInf \<or> (\<exists>t. js_add acc (fl (x * x)) = Num t \<and> 0 \<le> t)"
  proof (cases "acc = PosInf")
    case True
    with p show ?thesis by auto
  next
    case False
    with Cons.prems obtain t where t: "acc = Num t" "0 \<le> t" by blast
    from p show ?thesis
    proof
      assume "fl (x * x) = PosInf"
      then show ?thesis by (simp add: t)
    next
      assume "\<exists>q. fl (x * x) = Num q \<and> 0 \<le> q"
      then obtain q where q: "fl (x * x) = Num q" "0 \<le> q" by blast
      from fl_nonneg [of "t + q"] t q show ?thesis by simp
    qed
  qed
  from Cons.IH [OF this] show ?case by simp
qed

lemma cosineSimilarity_zero_left:
  assumes "length a = length b" "\<forall>x \<in> set a. x = 0"
  shows "cosineSimilarity a b = NaN"
proof -
  have d: "accum (Num 0) (zip a b) = Num 0"
    using assms(2) by (intro accum_zero) (auto dest: set_zip_leftD)
  have na: "accum (Num 0) (zip a a) = Num 0"
    using assms(2) by (intro accum_zero) (auto dest: set_zip_leftD)
  from accum_squares_cases [of "Num 0" b]
  have "accum (Num 0) (zip b b) = PosInf \<or> (\<exists>t. accum (Num 0) (zip b b) = Num t \<and> 0 \<le> t)" by simp
  then have "js_mul (Num 0) (js_sqrt (accum (Num 0) (zip b b))) = NaN
           \<or> js_mul (Num 0) (js_sqrt (accum (Num 0) (zip b b))) = Num 0"
  proof
    assume "accum (Num 0) (zip b b) = PosInf"
    then show ?thesis by simp
  next
    assume "\<exists>t. accum (Num 0) (zip b b) = Num t \<and> 0 \<le> t"
    then obtain t where t: "accum (Num 0) (zip b b) = Num t" "0 \<le> t" by blast
    from fl_nonneg [of "sqrt t"] t(2) show ?thesis by (auto simp: t)
  qed
  then show ?thesis
    by (auto simp: cosineSimilarity_accum [OF assms(1)] d na)
qed

lemma cosineSimilarity_zero_vector:
  assumes "length a = length b" and "(\<forall>x \<in> set a. x = 0) \<or> (\<forall>y \<in> set b. y = 0)"
  shows "cosineSimilarity a b = NaN"
  using assms(2)
proof
  assume "\<forall>x \<in> set a. x = 0"
  with assms(1) show ?thesis by (rule cosineSimilarity_zero_left)
next
  assume "\<forall>y \<in> set b. y = 0"
  with assms(1) have "cosineSimilarity b a = NaN" by (intro cosineSimilarity_zero_left) simp_all
  then show ?thesis by (simp add: cosineSimilarity_commute [of a b])
qed

lemma gridNum_cosineSimilarity [simp]: "gridNum (cosineSimilarity a b)"
  by (simp add: cosineSimilarity_def gridNum_def [of "Num 0"] split: prod.splits)

lemma sqrt_examples: "sqrt 25 = 5"
  using real_sqrt_abs [of 5] by simp

lemma cos_examples:
  "cosineSimilarity [1, 0] [0, 1] = Num 0"
  "cosineSimilarity [0, 1] [1, 0] = Num 0"
  "cosineSimilarity [1, 0] [1, 0] = Num 1"
  "cosineSimilarity [1, 0] [0, 0] = NaN"
  "cosineSimilarity [3, 4] [3, 4] = Num 1"
  by (simp_all add: cosineSimilarity_accum fl_examples sqrt_examples)

lemma cos_overflow: "cosineSimilarity [2 ^ 600, 2 ^ 600] [2 ^ 600, 2 ^ 600] = NaN"
proof -
  have "fl (2 ^ 600 * 2 ^ 600) = PosInf" by (rule fl_overflow) (simp add: power_add [symmetric])
  then show ?thesis by (simp add: cosineSimilarity_accum)
qed

lemma sqrt13: "fl (sqrt 13) = Num (8118979690322419 / 2251799813685248)"
proof -
  have lo: "2 \<le> sqrt 13" by (rule real_le_rsqrt) simp
  have hi: "sqrt 13 < 4" by (rule real_less_lsqrt) simp_all
  have a: "(8118979690322419 - 1 / 2) / 2251799813685248 < sqrt 13"
    by (rule real_less_rsqrt) (simp add: power2_eq_square)
  have b: "sqrt 13 < (8118979690322419 + 1 / 2) / 2251799813685248"
    by (rule real_less_lsqrt) (simp_all add: power2_eq_square)
  have "\<bar>sqrt 13 / 2 powi (- 51) - real_of_int 8118979690322419\<bar> < 1 / 2"
  proof -
    have "sqrt 13 / 2 powi (- 51) = sqrt 13 * 2251799813685248" by (simp add: power_int_minus)
    moreover have "8118979690322419 - 1 / 2 < sqrt 13 * 2251799813685248" using a by (simp add: field_simps)
    moreover have "sqrt 13 * 2251799813685248 < 8118979690322419 + 1 / 2" using b by (simp add: field_simps)
    ultimately show ?thesis unfolding abs_less_iff by simp
  qed
  from fl_eval [of 1 "sqrt 13" "- 51" 8118979690322419, OF _ _ _ this] lo hi
  show ?thesis by (simp add: power_int_minus)
qed

lemma cos_rounding:
  "cosineSimilarity [2, 3] [2, 3] = Num (4503599627370497 / 4503599627370496)"
proof -
  have w: "fl (65917831211867922725444174011561 / 5070602400912917605986812821504)
           = Num (7318349394477055 / 562949953421312)"
    using fl_eval [of 3 "65917831211867922725444174011561 / 5070602400912917605986812821504"
                      "- 49" 7318349394477055]
    by (simp add: power_int_minus)
  have q: "fl (7318349394477056 / 7318349394477055) = Num (4503599627370497 / 4503599627370496)"
    using fl_eval [of 0 "7318349394477056 / 7318349394477055" "- 52" 4503599627370497]
    by (simp add: power_int_minus)
  show ?thesis
    by (simp add: cosineSimilarity_accum fl_examples sqrt13 w q)
qed

lemma times_examples:
  "js_times (Num 1) (1 / 2) = Num (1 / 2)"
  "js_times (Num 1) (3 / 10) = Num (5404319552844595 / 18014398509481984)"
proof -
  have a: "fl (5 / 10) = Num (1 / 2)"
    using fl_exact [of 1 "- 1"] by (simp add: power_int_minus)
  have b: "fl (3 / 10) = Num (5404319552844595 / 18014398509481984)"
    using fl_eval [of "- 2" "3 / 10" "- 54" 5404319552844595] by (simp add: power_int_minus)
  have c: "fl (5404319552844595 / 18014398509481984) = Num (5404319552844595 / 18014398509481984)"
    using fl_exact [of 5404319552844595 "- 54"] by (simp add: power_int_minus)
  show "js_times (Num 1) (1 / 2) = Num (1 / 2)"
    using a by (simp add: js_times_def)
  show "js_times (Num 1) (3 / 10) = Num (5404319552844595 / 18014398509481984)"
    by (simp add: js_times_def b c)
qed

text \<open>
  Claim C7, as the code has it. The cosine similarity is the same value in both argument
  orders, for all vectors, and is \<open>0\<close> for vectors of different lengths. For two non-zero
  vectors of equal length with at most \<open>10^6\<close> components, each zero or between
  \<open>10^-150\<close> and \<open>10^150\<close> in size, it is a number between \<open>-1 - 10^-8\<close> and
  \<open>1 + 10^-8\<close>, and the similarity of such a vector with itself is within \<open>10^-15\<close> of
  \<open>1\<close>. The tolerance is needed, and the range too: rounding takes the similarity of
  \<open>[2, 3]\<close> with itself to \<open>1 + 2^-52\<close>, and the squares of \<open>[2^600, 2^600]\<close> overflow, so
  that its similarity with itself is \<^verbatim>\<open>NaN\<close>.
\<close>

theorem C7_cosineSimilarity:
  "cosineSimilarity a b = cosineSimilarity b a
   \<and> (length c \<noteq> length d \<longrightarrow> cosineSimilarity c d = Num 0)
   \<and> (length a = length b \<and> moderate a \<and> moderate b \<longrightarrow>
        (\<exists>r. cosineSimilarity a b = Num r \<and> - 1 - 1 / 10 ^ 8 \<le> r \<and> r \<le> 1 + 1 / 10 ^ 8))
   \<and> (moderate v \<longrightarrow> (\<exists>r. cosineSimilarity v v = Num r \<and> \<bar>r - 1\<bar> \<le> 1 / 10 ^ 15))"
proof (intro conjI impI)
  show "cosineSimilarity a b = cosineSimilarity b a" by (rule cosineSimilarity_commute)
next
  assume "length c \<noteq> length d"
  then show "cosineSimilarity c d = Num 0" by (simp add: cosineSimilarity_def)
next
  assume h: "length a = length b \<and> moderate a \<and> moderate b"
  then have "moderate a" "moderate b" "length a = length b" by simp_all
  from cosineSimilarity_bounded [OF this] obtain r where r: "cosineSimilarity a b = Num r"
    and b: "\<bar>r\<bar> \<le> 1 + 1 / 10 ^ 8" by blast
  from b have "- 1 - 1 / 10 ^ 8 \<le> r" and "r \<le> 1 + 1 / 10 ^ 8" by linarith+
  with r show "\<exists>r. cosineSimilarity a b = Num r \<and> - 1 - 1 / 10 ^ 8 \<le> r \<and> r \<le> 1 + 1 / 10 ^ 8"
    by blast
next
  assume "moderate v"
  then show "\<exists>r. cosineSimilarity v v = Num r \<and> \<bar>r - 1\<bar> \<le> 1 / 10 ^ 15"
    by (rule cosineSimilarity_self)
qed

theorem C7_cosineSimilarity_witness:
  "cosineSimilarity [1, 0] [0, 1] = Num 0 \<and> cosineSimilarity [0, 1] [1, 0] = Num 0
   \<and> cosineSimilarity [1] [1, 2] = Num 0
   \<and> moderate [1, 0] \<and> moderate [0, 1] \<and> moderate [2, 3]
   \<and> cosineSimilarity [2, 3] [2, 3] = Num (4503599627370497 / 4503599627370496)
   \<and> \<bar>4503599627370497 / 4503599627370496 - 1\<bar> \<le> (1::real) / 10 ^ 15"
proof -
  have m: "moderate [1, 0]" "moderate [0, 1]" "moderate [2, 3]"
    by (simp_all add: moderate_def)
  from C7_cosineSimilarity [where a = "[1, 0]" and b = "[0, 1]" and v = "[2, 3]"
                               and c = "[1]" and d = "[1, 2]"] m
  show ?thesis by (simp add: cos_examples cos_rounding)
qed

theorem C7_counterexample:
  "length [2 ^ 600, 2 ^ 600 :: real] = length [2 ^ 600, 2 ^ 600 :: real]
   \<and> (2::real) ^ 600 \<noteq> 0
   \<and> cosineSimilarity [2 ^ 600, 2 ^ 600] [2 ^ 600, 2 ^ 600] = NaN
   \<and> (2::real) \<noteq> 0
   \<and> cosineSimilarity [2, 3] [2, 3] = Num (4503599627370497 / 4503599627370496)
   \<and> \<not> 4503599627370497 / 4503599627370496 \<le> (1::real)"
  using cos_overflow cos_rounding by simp

section \<open>Evaluating the instances\<close>

lemmas eval_query = isRecentQuery_def isUpcomingQuery_def isPastQuery_def recentQuery_def
  upcomingQuery_def plainQuery_def ascii_def

lemma recentQuery_class: "isRecentQuery recentQuery" "\<not> isUpcomingQuery recentQuery" "\<not> isPastQuery recentQuery"
  by (simp_all add: eval_query)

lemma upcomingQuery_class: "\<not> isRecentQuery upcomingQuery" "isUpcomingQuery upcomingQuery" "\<not> isPastQuery upcomingQuery"
  by (simp_all add: eval_query)

lemma plainQuery_class: "\<not> isRecentQuery plainQuery" "\<not> isUpcomingQuery plainQuery" "\<not> isPastQuery plainQuery"
  by (simp_all add: eval_query)

lemmas eval_scan = koreanScan.simps isoScan.simps koreanMatch_def
  koreanMonthDay_def koreanDay_def isoMatch_def acceptDate_def parseInt_def isDigit_def
  sepYear_def sepMonth_def sepDay_def isSpace_def ascii_def

lemma utcEnv_simps:
  "newDate utcEnv = utcNewDate"
  "parseDate utcEnv = utcParseDate"
  "getFullYear utcEnv t = yearFromDays (t div msPerDay)"
  by (simp_all add: utcEnv_def)

lemma stale_koreanScan: "koreanScan env (ascii ''2022-01-01 2030-01-01'') = []"
  by (simp add: eval_scan)

lemma stale_isoScan: "isoScan env (ascii ''2022-01-01 2030-01-01'') = [newDate env 2022 0 1, newDate env 2030 0 1]"
  by code_simp

lemma utcNewDate_examples: "utcNewDate 2022 0 1 = 1640995200000" "utcNewDate 2030 0 1 = 1893456000000"
  by (simp_all add: utcNewDate_def daysFromCivil_def msPerDay_def)

lemma utc_years: "getFullYear utcEnv 1893456000000 = 2030" "getFullYear utcEnv 1640995200000 = 2022"
  by code_simp+

lemma stale_dates: "extractDatesFromChunk utcEnv (exampleChunk (ascii ''a-0'') (ascii ''2022-01-01 2030-01-01'') (Some [1, 0]))
   = [1640995200000, 1893456000000]"
  by (simp add: extractDatesFromChunk_def exampleChunk_def stale_koreanScan stale_isoScan utcNewDate_examples utcEnv_simps)

lemma fresh_dates:
  "extractDatesFromChunk utcEnv (exampleChunk (ascii ''d-0'') (ascii ''due 2030-01-01'') (Some [1, 0]))
   = [1893456000000]"
proof -
  have k: "koreanScan utcEnv (ascii ''due 2030-01-01'') = []" by (simp add: eval_scan)
  have i: "isoScan utcEnv (ascii ''due 2030-01-01'') = [newDate utcEnv 2030 0 1]" by code_simp
  show ?thesis
    by (simp add: extractDatesFromChunk_def exampleChunk_def k i utcNewDate_examples utcEnv_simps)
qed

section \<open>Date extraction: results\<close>

lemma acceptDate_accepted: "t \<in> set (acceptDate env ys ms ds) \<Longrightarrow> acceptedDate env t"
proof -
  assume "t \<in> set (acceptDate env ys ms ds)"
  then have r: "2020 \<le> parseInt ys" "parseInt ys \<le> 2030" "0 \<le> parseInt ms - 1"
    "parseInt ms - 1 \<le> 11" "1 \<le> parseInt ds" "parseInt ds \<le> 31"
    and t: "t = newDate env (parseInt ys) (parseInt ms - 1) (parseInt ds)"
    by (auto simp: acceptDate_def Let_def split: if_splits)
  from r have "1 \<le> parseInt ms" "parseInt ms \<le> 12" by linarith+
  with r t show ?thesis unfolding acceptedDate_def by blast
qed

lemma koreanScan_accepted: "t \<in> set (koreanScan env s) \<Longrightarrow> acceptedDate env t"
proof (induction "length s" arbitrary: s rule: less_induct)
  case less
  show ?case
  proof (cases s)
    case Nil
    with less.prems show ?thesis by (simp add: koreanScan.simps)
  next
    case (Cons c cs)
    show ?thesis
    proof (cases "koreanMatch s")
      case None
      with Cons less.prems have "t \<in> set (koreanScan env cs)"
        by (subst (asm) koreanScan.simps) simp
      moreover have "length cs < length s" using Cons by simp
      ultimately show ?thesis by (rule less.hyps [rotated])
    next
      case (Some res)
      obtain ys ms ds rest where res: "res = (ys, ms, ds, rest)" by (cases res) auto
      with Cons Some less.prems
      have "t \<in> set (acceptDate env ys ms ds) \<or> t \<in> set (koreanScan env rest)"
        by (subst (asm) koreanScan.simps) auto
      moreover have "length rest < length s" using Some res by (auto dest: koreanMatch_shorter)
      ultimately show ?thesis using acceptDate_accepted less.hyps by blast
    qed
  qed
qed

lemma isoScan_accepted: "t \<in> set (isoScan env s) \<Longrightarrow> acceptedDate env t"
proof (induction "length s" arbitrary: s rule: less_induct)
  case less
  show ?case
  proof (cases s)
    case Nil
    with less.prems show ?thesis by (simp add: isoScan.simps)
  next
    case (Cons c cs)
    show ?thesis
    proof (cases "isoMatch s")
      case None
      with Cons less.prems have "t \<in> set (isoScan env cs)"
        by (subst (asm) isoScan.simps) simp
      moreover have "length cs < length s" using Cons by simp
      ultimately show ?thesis by (rule less.hyps [rotated])
    next
      case (Some res)
      obtain ys ms ds rest where res: "res = (ys, ms, ds, rest)" by (cases res) auto
      with Cons Some less.prems
      have "t \<in> set (acceptDate env ys ms ds) \<or> t \<in> set (isoScan env rest)"
        by (subst (asm) isoScan.simps) auto
      moreover have "length rest < length s" using Some res by (auto dest: isoMatch_shorter)
      ultimately show ?thesis using acceptDate_accepted less.hyps by blast
    qed
  qed
qed

lemma metadataDates_accepted:
  "t \<in> set (metadataDates env ps) \<Longrightarrow> acceptedProperty env ps t"
proof (induction ps)
  case Nil
  then show ?case by simp
next
  case (Cons p ps)
  obtain k v where p: "p = (k, v)" by (cases p) auto
  have "t \<in> set (metadataDates env ((k, v) # ps))" using Cons.prems unfolding p .
  then have "(isDateKey k \<and> (\<exists>str. v = JString str \<and> parseDate env str = Some t
                \<and> 2020 \<le> getFullYear env t \<and> getFullYear env t \<le> 2030))
             \<or> t \<in> set (metadataDates env ps)"
    by (cases v; cases "isDateKey k"; auto split: option.splits if_splits)
  then show ?case
  proof
    assume "isDateKey k \<and> (\<exists>str. v = JString str \<and> parseDate env str = Some t
                \<and> 2020 \<le> getFullYear env t \<and> getFullYear env t \<le> 2030)"
    then show ?thesis unfolding acceptedProperty_def p by auto
  next
    assume "t \<in> set (metadataDates env ps)"
    from Cons.IH [OF this] show ?thesis unfolding acceptedProperty_def by auto
  qed
qed

lemma koreanMatch_nondigit: "\<not> isDigit c \<Longrightarrow> koreanMatch (c # s) = None"
  by (simp add: koreanMatch_def split: list.splits)

lemma isoMatch_nondigit: "\<not> isDigit c \<Longrightarrow> isoMatch (c # s) = None"
  by (simp add: isoMatch_def split: list.splits)

lemma koreanScan_skip: "noDigits pre \<Longrightarrow> koreanScan env (pre @ s) = koreanScan env s"
proof (induction pre)
  case Nil
  show ?case by simp
next
  case (Cons c pre)
  then have "\<not> isDigit c" and "noDigits pre" by (simp_all add: noDigits_def)
  with Cons.IH show ?case
    by (subst koreanScan.simps) (simp add: koreanMatch_nondigit)
qed

lemma isoScan_skip: "noDigits pre \<Longrightarrow> isoScan env (pre @ s) = isoScan env s"
proof (induction pre)
  case Nil
  show ?case by simp
next
  case (Cons c pre)
  then have "\<not> isDigit c" and "noDigits pre" by (simp_all add: noDigits_def)
  with Cons.IH show ?case
    by (subst isoScan.simps) (simp add: isoMatch_nondigit)
qed

lemma koreanScan_noDigits: "noDigits s \<Longrightarrow> koreanScan env s = []"
  using koreanScan_skip [of s env "[]"] by (simp add: koreanScan.simps)

lemma isoScan_noDigits: "noDigits s \<Longrightarrow> isoScan env s = []"
  using isoScan_skip [of s env "[]"] by (simp add: isoScan.simps)

lemma koreanScan_None: "koreanMatch (c # cs) = None \<Longrightarrow> koreanScan env (c # cs) = koreanScan env cs"
  by (subst koreanScan.simps) simp

lemma koreanMatch_one_then_nondigit: "noDigits post \<Longrightarrow> koreanMatch (a # post) = None"
  by (cases post) (simp_all add: koreanMatch_def noDigits_def split: list.splits)

lemma koreanMatch_two_then_nondigit: "noDigits post \<Longrightarrow> koreanMatch (a # b # post) = None"
  by (cases post) (simp_all add: koreanMatch_def noDigits_def split: list.splits)

lemmas koreanMatch_digits_then_nondigit =
  koreanMatch_one_then_nondigit koreanMatch_two_then_nondigit

lemma koreanScan_iso2031:
  assumes "noDigits post"
  shows "koreanScan env (ascii ''2031-01-01'' @ post) = []"
proof -
  have m: "koreanMatch (50 # 48 # 51 # 49 # 45 # r) = None"
    "koreanMatch (48 # 51 # 49 # 45 # r) = None"
    "koreanMatch (51 # 49 # 45 # r) = None"
    "koreanMatch (49 # 45 # r) = None"
    "koreanMatch (45 # r) = None"
    "koreanMatch (48 # 49 # 45 # r) = None" for r
    by (simp_all add: koreanMatch_def koreanMonthDay_def isDigit_def sepYear_def isSpace_def
             split: list.splits)
  have "koreanScan env (ascii ''2031-01-01'' @ post) = koreanScan env post"
    using assms
    by (simp add: ascii_def koreanScan_None m koreanMatch_digits_then_nondigit)
  then show ?thesis using assms by (simp add: koreanScan_noDigits)
qed

lemma isoScan_iso2031:
  assumes "noDigits post"
  shows "isoScan env (ascii ''2031-01-01'' @ post) = []"
proof -
  have "isoMatch (ascii ''2031-01-01'' @ post) =
          Some ([50, 48, 51, 49], [48, 49], [48, 49], post)"
    by (simp add: ascii_def isoMatch_def isDigit_def)
  moreover have "acceptDate env [50, 48, 51, 49] [48, 49] [48, 49] = []"
    by (simp add: acceptDate_def parseInt_def)
  moreover have "ascii ''2031-01-01'' @ post = 50 # (ascii ''031-01-01'' @ post)"
    by (simp add: ascii_def)
  ultimately have "isoScan env (ascii ''2031-01-01'' @ post) = isoScan env post"
    by (subst isoScan.simps) simp
  then show ?thesis using assms by (simp add: isoScan_noDigits)
qed

text \<open>
  Claim C5. Every extracted date comes either from a matched year, month and day with the
  year in 2020 to 2030, the month in 1 to 12 and the day in 1 to 31, or from a string
  property under a date-naming key whose parsed date has its year in 2020 to 2030. So for
  a chunk whose content is the ISO string 2031-01-01 between texts without a digit, and
  whose properties give no date, the extracted list is empty, and an upcoming query scores
  it at the cosine similarity times 0.5.
\<close>

theorem C5_date_range:
  "(\<forall>t \<in> set (extractDatesFromChunk env c).
       acceptedDate env t \<or> (\<exists>ps. properties (metadata c) = Some ps \<and> acceptedProperty env ps t))
   \<and> (content c = pre @ ascii ''2031-01-01'' @ post \<and> noDigits pre \<and> noDigits post
        \<and> (\<forall>ps. properties (metadata c) = Some ps \<longrightarrow> metadataDates env ps = [])
      \<longrightarrow> extractDatesFromChunk env c = []
          \<and> (isUpcomingQuery query \<longrightarrow>
               scoreChunk env now (isRecentQuery query) (isUpcomingQuery query) (isPastQuery query)
                 q c e
               = Some \<lparr> chunk = c, score = js_times (cosineSimilarity q e) (5 / 10) \<rparr>))"
proof (intro conjI ballI impI)
  fix t assume "t \<in> set (extractDatesFromChunk env c)"
  then consider "t \<in> set (koreanScan env (content c))" | "t \<in> set (isoScan env (content c))"
    | ps where "properties (metadata c) = Some ps" "t \<in> set (metadataDates env ps)"
    by (cases "properties (metadata c)") (auto simp: extractDatesFromChunk_def)
  then show "acceptedDate env t \<or> (\<exists>ps. properties (metadata c) = Some ps \<and> acceptedProperty env ps t)"
    using koreanScan_accepted isoScan_accepted metadataDates_accepted by cases blast+
next
  assume h: "content c = pre @ ascii ''2031-01-01'' @ post \<and> noDigits pre \<and> noDigits post
        \<and> (\<forall>ps. properties (metadata c) = Some ps \<longrightarrow> metadataDates env ps = [])"
  then have k: "koreanScan env (content c) = []" and i: "isoScan env (content c) = []"
    by (simp_all add: koreanScan_skip isoScan_skip koreanScan_iso2031 isoScan_iso2031)
  from h have m: "(case properties (metadata c) of None \<Rightarrow> [] | Some ps \<Rightarrow> metadataDates env ps) = []"
    by (simp split: option.splits)
  show none: "extractDatesFromChunk env c = []"
    by (simp add: extractDatesFromChunk_def k i m)
  assume "isUpcomingQuery query"
  then show "scoreChunk env now (isRecentQuery query) (isUpcomingQuery query) (isPastQuery query)
                 q c e
               = Some \<lparr> chunk = c, score = js_times (cosineSimilarity q e) (5 / 10) \<rparr>"
    by (simp add: scoreChunk_def none)
qed

theorem C5_date_range_witness:
  "extractDatesFromChunk utcEnv
     (exampleChunk (ascii ''d-0'') (ascii ''due 2030-01-01'') (Some [1, 0])) = [1893456000000]
   \<and> acceptedDate utcEnv 1893456000000
   \<and> content futureChunk = ascii ''deadline '' @ ascii ''2031-01-01'' @ ascii '' (tbd)''
   \<and> noDigits (ascii ''deadline '') \<and> noDigits (ascii '' (tbd)'')
   \<and> isUpcomingQuery upcomingQuery
   \<and> extractDatesFromChunk utcEnv futureChunk = []
   \<and> scoreChunk utcEnv exampleNow (isRecentQuery upcomingQuery) (isUpcomingQuery upcomingQuery)
         (isPastQuery upcomingQuery) [1, 0] futureChunk [1, 0]
       = Some \<lparr> chunk = futureChunk, score = Num (1 / 2) \<rparr>"
proof -
  have c: "content futureChunk = ascii ''deadline '' @ ascii ''2031-01-01'' @ ascii '' (tbd)''"
    by (simp add: futureChunk_def exampleChunk_def ascii_def)
  have n: "noDigits (ascii ''deadline '')" "noDigits (ascii '' (tbd)'')"
    by (simp_all add: noDigits_def ascii_def isDigit_def)
  have m: "\<forall>ps. properties (metadata futureChunk) = Some ps \<longrightarrow> metadataDates utcEnv ps = []"
    by (simp add: futureChunk_def exampleChunk_def)
  have u: "isUpcomingQuery upcomingQuery" by (rule upcomingQuery_class)
  have p: "properties (metadata (exampleChunk a b c)) = Some []" for a b c
    by (simp add: exampleChunk_def)
  from C5_date_range [of utcEnv "exampleChunk (ascii ''d-0'') (ascii ''due 2030-01-01'') (Some [1, 0])"]
  have a: "acceptedDate utcEnv 1893456000000"
    by (simp add: fresh_dates p acceptedProperty_def)
  from C5_date_range [of utcEnv futureChunk "ascii ''deadline ''" "ascii '' (tbd)''" upcomingQuery
      exampleNow "[1, 0]" "[1, 0]"] c n m u a fresh_dates
  show ?thesis by (simp add: cos_examples times_examples)
qed

section \<open>Similarity search: results\<close>

lemma searchLoop_eq:
  "searchLoop env now (isRecentQuery query) (isUpcomingQuery query) (isPastQuery query) q cs sims =
   sims @ List.map_filter (scoreOf env now query q) cs"
  by (induction cs arbitrary: sims)
     (auto simp: List.map_filter_simps scoreOf_def split: option.splits)

lemma scoreChunk_chunk:
  "scoreChunk env now r u p q c e = Some res \<Longrightarrow> chunk res = c"
  by (auto simp: scoreChunk_def Let_def split: if_splits)

lemma scoreChunk_score:
  "scoreChunk env now r u p q c e = Some res \<Longrightarrow>
   score res = cosineSimilarity q e \<or> score res = js_times (cosineSimilarity q e) (3 / 10)
   \<or> score res = js_times (cosineSimilarity q e) (12 / 10)
   \<or> score res = js_times (cosineSimilarity q e) (5 / 10)"
  by (auto simp: scoreChunk_def Let_def split: if_splits)

lemma set_insertSorted [simp]: "set (insertSorted x ys) = insert x (set ys)"
  by (induction ys) auto

lemma length_insertSorted [simp]: "length (insertSorted x ys) = Suc (length ys)"
  by (induction ys) auto

lemma set_sortByScore [simp]: "set (sortByScore xs) = set xs"
  by (induction xs) (auto simp: sortByScore_def)

lemma length_sortByScore [simp]: "length (sortByScore xs) = length xs"
  by (induction xs) (auto simp: sortByScore_def)

lemma set_slice0: "set (slice0 xs k) \<subseteq> set xs"
  by (auto simp: slice0_def dest: in_set_takeD)

lemma length_slice0: "0 \<le> k \<Longrightarrow> length (slice0 xs k) \<le> nat k"
  by (simp add: slice0_def)

lemma js_ge_total: "x \<noteq> NaN \<Longrightarrow> y \<noteq> NaN \<Longrightarrow> js_ge x y \<or> js_ge y x"
  by (cases x; cases y) auto

lemma js_ge_trans: "js_ge x y \<Longrightarrow> js_ge y z \<Longrightarrow> js_ge x z"
  by (cases x; cases y; cases z) auto

text \<open>The rounded difference of two doubles has the sign of the exact one.\<close>

lemma compare_positive:
  assumes "gridNum x" "gridNum y" "x \<noteq> NaN" "y \<noteq> NaN"
  shows "js_positive (js_minus y x) \<longleftrightarrow> \<not> js_ge x y"
proof (cases x)
  case (Num a)
  show ?thesis
  proof (cases y)
    case (Num b)
    from assms(1,2) have "onGrid a" "onGrid b"
      by (simp_all add: gridNum_def \<open>x = Num a\<close> \<open>y = Num b\<close>)
    from fl_diff_positive [OF this] show ?thesis
      by (simp add: \<open>x = Num a\<close> \<open>y = Num b\<close> not_le)
  qed (use assms Num in simp_all)
qed (use assms in \<open>cases y; simp\<close>)+

lemma js_times_not_NaN:
  assumes "x \<noteq> NaN" "1 / 2 ^ 1074 \<le> c" "c \<le> 2 ^ 1023"
  shows "js_times x c \<noteq> NaN"
proof -
  have c0: "0 < c" using assms(2) by (rule less_le_trans [rotated]) simp
  then have "\<bar>c\<bar> \<le> 2 ^ 1023" using assms(3) by simp
  from fl_finite [OF this] obtain v where v: "fl c = Num v" by blast
  from fl_pos [OF assms(2)] have "0 < v" by (simp add: v)
  with assms(1) show ?thesis by (cases x) (simp_all add: js_times_def v)
qed

lemma multiplier_not_NaN:
  assumes "x \<noteq> NaN"
  shows "js_times x (3 / 10) \<noteq> NaN" "js_times x (12 / 10) \<noteq> NaN" "js_times x (5 / 10) \<noteq> NaN"
  using js_times_not_NaN [OF assms, of "3 / 10"] js_times_not_NaN [OF assms, of "12 / 10"]
    js_times_not_NaN [OF assms, of "5 / 10"]
  by simp_all

lemma descending_insertSorted:
  assumes "validScore x" "\<forall>y \<in> set ys. validScore y" "descending ys"
  shows "descending (insertSorted x ys)"
  using assms
proof (induction ys)
  case Nil
  then show ?case by (simp add: descending_def)
next
  case (Cons y ys)
  have vx: "score x \<noteq> NaN" "gridNum (score x)" and vy: "score y \<noteq> NaN" "gridNum (score y)"
    using Cons.prems by (simp_all add: validScore_def)
  have cmp: "js_positive (compareFn x y) \<longleftrightarrow> \<not> js_ge (score x) (score y)"
    unfolding compareFn_def using vx vy by (intro compare_positive) simp_all
  have tl: "descending (insertSorted x ys)"
    using Cons by (simp add: descending_def)
  show ?case
  proof (cases "js_positive (compareFn x y)")
    case True
    with cmp js_ge_total [OF vx(1) vy(1)] have "js_ge (score y) (score x)" by blast
    then show ?thesis
      using True Cons.prems tl by (auto simp: descending_def)
  next
    case False
    with cmp have xy: "js_ge (score x) (score y)" by simp
    have "\<forall>z \<in> set ys. js_ge (score x) (score z)"
    proof
      fix z assume z: "z \<in> set ys"
      with Cons.prems have "js_ge (score y) (score z)" by (auto simp: descending_def)
      with xy show "js_ge (score x) (score z)" by (rule js_ge_trans)
    qed
    then show ?thesis
      using False Cons.prems xy by (auto simp: descending_def)
  qed
qed

lemma descending_sortByScore:
  "\<forall>x \<in> set xs. validScore x \<Longrightarrow> descending (sortByScore xs)"
proof (induction xs)
  case Nil
  show ?case by (simp add: sortByScore_def descending_def)
next
  case (Cons x xs)
  then have "descending (sortByScore xs)" by simp
  moreover have "\<forall>y \<in> set (sortByScore xs). validScore y" using Cons.prems by simp
  ultimately have "descending (insertSorted x (sortByScore xs))"
    using Cons.prems by (intro descending_insertSorted) simp_all
  then show ?case by (simp add: sortByScore_def)
qed

lemma descending_slice0: "descending xs \<Longrightarrow> descending (slice0 xs k)"
  by (simp add: descending_def slice0_def sorted_wrt_take)

lemma scored_results:
  assumes "searchSimilarChunks env svc now st query topK = Inr rs"
    and "getQueryEmbedding svc st query = Inr q"
  shows "rs = slice0 (sortByScore (List.map_filter (scoreOf env now query q) (chunks st))) topK"
  using assms by (simp add: searchSimilarChunks_def searchLoop_eq)

lemma scoreOf_Some:
  assumes "scoreOf env now query q c = Some r"
  shows "chunk r = c \<and> (\<exists>e. embedding c = Some e \<and>
           (score r = cosineSimilarity q e \<or> score r = js_times (cosineSimilarity q e) (3 / 10)
            \<or> score r = js_times (cosineSimilarity q e) (12 / 10)
            \<or> score r = js_times (cosineSimilarity q e) (5 / 10)))"
  using assms scoreChunk_chunk scoreChunk_score
  by (fastforce simp: scoreOf_def split: option.splits)

lemma result_origin:
  assumes "searchSimilarChunks env svc now st query topK = Inr rs"
    and "getQueryEmbedding svc st query = Inr q"
    and "r \<in> set rs"
  shows "chunk r \<in> set (chunks st) \<and> scoreOf env now query q (chunk r) = Some r"
proof -
  from scored_results [OF assms(1,2)] assms(3) set_slice0
  have "r \<in> set (List.map_filter (scoreOf env now query q) (chunks st))" by fastforce
  then obtain c where c: "c \<in> set (chunks st)" and s: "scoreOf env now query q c = Some r"
    by (auto simp: List.map_filter_def)
  from scoreOf_Some [OF s] have "chunk r = c" by simp
  with c s show ?thesis by simp
qed

lemma js_times_NaN [simp]: "js_times NaN k = NaN"
  by (simp add: js_times_def)


lemma dateMatches_recent:
  "dateMatches True u p now ds = (\<exists>d \<in> set ds. now - sevenDays \<le> d \<and> d \<le> now + sevenDays)"
  by (induction ds) auto

lemma exampleService_query:
  "getQueryEmbedding exampleService exampleStore query = Inr [1, 0]"
  "getQueryEmbedding exampleService zeroStore query = Inr [1, 0]"
  by (simp_all add: getQueryEmbedding_def exampleService_def exampleStore_def zeroStore_def)

lemma exampleStore_search:
  "searchSimilarChunks utcEnv exampleService exampleNow exampleStore plainQuery 5 =
     Inr [\<lparr> chunk = exampleChunk (ascii ''c-0'') (ascii ''gamma'') (Some [1, 0]), score = Num 1 \<rparr>,
          \<lparr> chunk = exampleChunk (ascii ''a-0'') (ascii ''alpha'') (Some [0, 1]), score = Num 0 \<rparr>]"
proof -
  have e: "embedding (exampleChunk a b c) = c" for a b c by (simp add: exampleChunk_def)
  have loop: "searchLoop utcEnv exampleNow False False False [1, 0] (chunks exampleStore) [] =
     [\<lparr> chunk = exampleChunk (ascii ''a-0'') (ascii ''alpha'') (Some [0, 1]), score = Num 0 \<rparr>,
      \<lparr> chunk = exampleChunk (ascii ''c-0'') (ascii ''gamma'') (Some [1, 0]), score = Num 1 \<rparr>]"
    by (simp add: exampleStore_def e scoreChunk_def cos_examples)
  show ?thesis
    by (simp add: searchSimilarChunks_def exampleService_query plainQuery_class loop
        sortByScore_def compareFn_def slice0_def fl_examples)
qed

lemma zeroStore_search:
  "searchSimilarChunks utcEnv exampleService exampleNow zeroStore plainQuery (- 1) =
     Inr [\<lparr> chunk = exampleChunk (ascii ''a-0'') (ascii ''alpha'') (Some [0, 1]), score = Num 0 \<rparr>,
          \<lparr> chunk = exampleChunk (ascii ''b-0'') (ascii ''beta'') (Some [0, 0]), score = NaN \<rparr>,
          \<lparr> chunk = exampleChunk (ascii ''c-0'') (ascii ''gamma'') (Some [1, 0]), score = Num 1 \<rparr>]"
proof -
  have e: "embedding (exampleChunk a b c) = c" for a b c by (simp add: exampleChunk_def)
  have loop: "searchLoop utcEnv exampleNow False False False [1, 0] (chunks zeroStore) [] =
     [\<lparr> chunk = exampleChunk (ascii ''a-0'') (ascii ''alpha'') (Some [0, 1]), score = Num 0 \<rparr>,
      \<lparr> chunk = exampleChunk (ascii ''b-0'') (ascii ''beta'') (Some [0, 0]), score = NaN \<rparr>,
      \<lparr> chunk = exampleChunk (ascii ''c-0'') (ascii ''gamma'') (Some [1, 0]), score = Num 1 \<rparr>,
      \<lparr> chunk = exampleChunk (ascii ''d-0'') (ascii ''delta'') (Some [0, 1]), score = Num 0 \<rparr>]"
    by (simp add: zeroStore_def e scoreChunk_def cos_examples)
  show ?thesis
    by (simp add: searchSimilarChunks_def exampleService_query(2) plainQuery_class loop
        sortByScore_def compareFn_def slice0_def fl_examples)
qed

text \<open>
  Claim C1, as the code has it. For a query of the recent family and a chunk whose
  extracted dates are not empty and none of which lies within seven days of now, the loop
  body pushes nothing (the chunk is dropped) exactly when at least one extracted date has a
  year before 2024; otherwise it pushes the chunk with the score similarity times 0.3.
  The claim says "every extracted date" where the code tests \<^verbatim>\<open>some\<close>: the chunk of
  the last instance has the dates 2022-01-01 and 2030-01-01 and is dropped.
\<close>

theorem C1_recent_without_match:
  assumes "isRecentQuery query"
    and "extractDatesFromChunk env c \<noteq> []"
    and "\<forall>d \<in> set (extractDatesFromChunk env c). \<not> (now - sevenDays \<le> d \<and> d \<le> now + sevenDays)"
  shows "(scoreChunk env now (isRecentQuery query) (isUpcomingQuery query) (isPastQuery query) q c e = None
           \<longleftrightarrow> (\<exists>d \<in> set (extractDatesFromChunk env c). getFullYear env d < 2024))
       \<and> (\<not> (\<exists>d \<in> set (extractDatesFromChunk env c). getFullYear env d < 2024) \<longrightarrow>
            scoreChunk env now (isRecentQuery query) (isUpcomingQuery query) (isPastQuery query) q c e
              = Some \<lparr> chunk = c, score = js_times (cosineSimilarity q e) (3 / 10) \<rparr>)"
  using assms
  by (simp add: scoreChunk_def Let_def dateMatches_recent list_ex_iff)

theorem C1_recent_without_match_witness:
  "isRecentQuery recentQuery
   \<and> extractDatesFromChunk utcEnv
        (exampleChunk (ascii ''d-0'') (ascii ''due 2030-01-01'') (Some [1, 0])) \<noteq> []
   \<and> scoreChunk utcEnv exampleNow (isRecentQuery recentQuery) (isUpcomingQuery recentQuery)
        (isPastQuery recentQuery) [1, 0]
        (exampleChunk (ascii ''d-0'') (ascii ''due 2030-01-01'') (Some [1, 0])) [1, 0]
      = Some \<lparr> chunk = exampleChunk (ascii ''d-0'') (ascii ''due 2030-01-01'') (Some [1, 0]),
               score = Num (5404319552844595 / 18014398509481984) \<rparr>"
proof -
  have h1: "isRecentQuery recentQuery" by (rule recentQuery_class)
  have h2: "extractDatesFromChunk utcEnv
        (exampleChunk (ascii ''d-0'') (ascii ''due 2030-01-01'') (Some [1, 0])) \<noteq> []"
    by (simp add: fresh_dates)
  have h3: "\<forall>d \<in> set (extractDatesFromChunk utcEnv
        (exampleChunk (ascii ''d-0'') (ascii ''due 2030-01-01'') (Some [1, 0]))).
      \<not> (exampleNow - sevenDays \<le> d \<and> d \<le> exampleNow + sevenDays)"
    by (simp add: fresh_dates exampleNow_def sevenDays_def)
  from C1_recent_without_match [OF h1 h2 h3, of "[1, 0]" "[1, 0]"] h1 h2
  show ?thesis by (simp add: fresh_dates utc_years cos_examples times_examples)
qed

theorem C1_counterexample:
  "isRecentQuery recentQuery
   \<and> embedding (exampleChunk (ascii ''a-0'') (ascii ''2022-01-01 2030-01-01'') (Some [1, 0])) = Some [1, 0]
   \<and> extractDatesFromChunk utcEnv
        (exampleChunk (ascii ''a-0'') (ascii ''2022-01-01 2030-01-01'') (Some [1, 0]))
      = [1640995200000, 1893456000000]
   \<and> \<not> (exampleNow - sevenDays \<le> 1640995200000 \<and> 1640995200000 \<le> exampleNow + sevenDays)
   \<and> \<not> (exampleNow - sevenDays \<le> 1893456000000 \<and> 1893456000000 \<le> exampleNow + sevenDays)
   \<and> \<not> getFullYear utcEnv 1893456000000 < 2024
   \<and> scoreChunk utcEnv exampleNow (isRecentQuery recentQuery) (isUpcomingQuery recentQuery)
        (isPastQuery recentQuery) [1, 0]
        (exampleChunk (ascii ''a-0'') (ascii ''2022-01-01 2030-01-01'') (Some [1, 0])) [1, 0] = None"
proof -
  have "embedding (exampleChunk (ascii ''a-0'') (ascii ''2022-01-01 2030-01-01'') (Some [1, 0])) = Some [1, 0]"
    by (simp add: exampleChunk_def)
  moreover have "scoreChunk utcEnv exampleNow (isRecentQuery recentQuery) (isUpcomingQuery recentQuery)
        (isPastQuery recentQuery) [1, 0]
        (exampleChunk (ascii ''a-0'') (ascii ''2022-01-01 2030-01-01'') (Some [1, 0])) [1, 0] = None"
    unfolding scoreChunk_def stale_dates
    by (simp add: recentQuery_class utc_years exampleNow_def sevenDays_def)
  ultimately show ?thesis
    using recentQuery_class stale_dates utc_years by (simp add: exampleNow_def sevenDays_def)
qed

text \<open>
  Claim C3, as the code has it. Every returned result carries a chunk with an embedding.
  When no similarity is \<^verbatim>\<open>NaN\<close> the returned list is in descending order of score, and
  when \<open>topK\<close> is not negative its length is at most \<open>topK\<close>. With a zero embedding in
  the store a score is \<^verbatim>\<open>NaN\<close> and the list is not ordered, and \<^verbatim>\<open>slice(0, topK)\<close> with a
  negative \<open>topK\<close> drops that many results from the end instead: the last instance has
  both, three results with the scores 0, \<^verbatim>\<open>NaN\<close>, 1 in this order for \<open>topK = -1\<close>.
\<close>

theorem C3_search_results:
  assumes "searchSimilarChunks env svc now st query topK = Inr rs"
    and "getQueryEmbedding svc st query = Inr q"
  shows "(\<forall>r \<in> set rs. embedding (chunk r) \<noteq> None)
       \<and> ((\<forall>c \<in> set (chunks st). \<forall>e. embedding c = Some e \<longrightarrow> cosineSimilarity q e \<noteq> NaN)
            \<longrightarrow> descending rs)
       \<and> (0 \<le> topK \<longrightarrow> int (length rs) \<le> topK)"
proof (intro conjI impI ballI)
  fix r assume "r \<in> set rs"
  from result_origin [OF assms this] have "scoreOf env now query q (chunk r) = Some r" by simp
  from scoreOf_Some [OF this] obtain e where "embedding (chunk r) = Some e" by blast
  then show "embedding (chunk r) \<noteq> None" by simp
next
  assume ok: "\<forall>c \<in> set (chunks st). \<forall>e. embedding c = Some e \<longrightarrow> cosineSimilarity q e \<noteq> NaN"
  have "\<forall>r \<in> set (List.map_filter (scoreOf env now query q) (chunks st)). validScore r"
  proof
    fix r assume "r \<in> set (List.map_filter (scoreOf env now query q) (chunks st))"
    then obtain c where c: "c \<in> set (chunks st)" and s: "scoreOf env now query q c = Some r"
      by (auto simp: List.map_filter_def)
    from scoreOf_Some [OF s] obtain e where e: "embedding c = Some e"
      and sc: "score r = cosineSimilarity q e \<or> score r = js_times (cosineSimilarity q e) (3 / 10)
               \<or> score r = js_times (cosineSimilarity q e) (12 / 10)
               \<or> score r = js_times (cosineSimilarity q e) (5 / 10)"
      by blast
    from ok c e have "cosineSimilarity q e \<noteq> NaN" by blast
    from multiplier_not_NaN [OF this] this sc have "score r \<noteq> NaN" by auto
    moreover from sc have "gridNum (score r)" by auto
    ultimately show "validScore r" by (simp add: validScore_def)
  qed
  then have "descending (sortByScore (List.map_filter (scoreOf env now query q) (chunks st)))"
    by (rule descending_sortByScore)
  then show "descending rs"
    unfolding scored_results [OF assms] by (rule descending_slice0)
next
  assume k: "0 \<le> topK"
  have "length (slice0 (sortByScore (List.map_filter (scoreOf env now query q) (chunks st))) topK)
          \<le> nat topK"
    using k by (rule length_slice0)
  then have "length rs \<le> nat topK" using scored_results [OF assms] by simp
  then show "int (length rs) \<le> topK" using k by linarith
qed

theorem C3_search_results_witness:
  "searchSimilarChunks utcEnv exampleService exampleNow exampleStore plainQuery 5 =
     Inr [\<lparr> chunk = exampleChunk (ascii ''c-0'') (ascii ''gamma'') (Some [1, 0]), score = Num 1 \<rparr>,
          \<lparr> chunk = exampleChunk (ascii ''a-0'') (ascii ''alpha'') (Some [0, 1]), score = Num 0 \<rparr>]
   \<and> descending
        [\<lparr> chunk = exampleChunk (ascii ''c-0'') (ascii ''gamma'') (Some [1, 0]), score = Num 1 \<rparr>,
         \<lparr> chunk = exampleChunk (ascii ''a-0'') (ascii ''alpha'') (Some [0, 1]), score = Num 0 \<rparr>]"
proof -
  have e: "embedding (exampleChunk a b c) = c" for a b c by (simp add: exampleChunk_def)
  have ok: "\<forall>c \<in> set (chunks exampleStore). \<forall>e. embedding c = Some e \<longrightarrow>
              cosineSimilarity [1, 0] e \<noteq> NaN"
    by (simp add: exampleStore_def e cos_examples)
  from C3_search_results [OF exampleStore_search exampleService_query(1)] ok exampleStore_search
  show ?thesis by simp
qed

theorem C3_counterexample:
  "searchSimilarChunks utcEnv exampleService exampleNow zeroStore plainQuery (- 1) =
     Inr [\<lparr> chunk = exampleChunk (ascii ''a-0'') (ascii ''alpha'') (Some [0, 1]), score = Num 0 \<rparr>,
          \<lparr> chunk = exampleChunk (ascii ''b-0'') (ascii ''beta'') (Some [0, 0]), score = NaN \<rparr>,
          \<lparr> chunk = exampleChunk (ascii ''c-0'') (ascii ''gamma'') (Some [1, 0]), score = Num 1 \<rparr>]
   \<and> \<not> descending
          [\<lparr> chunk = exampleChunk (ascii ''a-0'') (ascii ''alpha'') (Some [0, 1]), score = Num 0 \<rparr>,
           \<lparr> chunk = exampleChunk (ascii ''b-0'') (ascii ''beta'') (Some [0, 0]), score = NaN \<rparr>,
           \<lparr> chunk = exampleChunk (ascii ''c-0'') (ascii ''gamma'') (Some [1, 0]), score = Num 1 \<rparr>]
   \<and> \<not> js_ge (Num 0) (Num 1)
   \<and> \<not> int (length
          [\<lparr> chunk = exampleChunk (ascii ''a-0'') (ascii ''alpha'') (Some [0, 1]), score = Num 0 \<rparr>,
           \<lparr> chunk = exampleChunk (ascii ''b-0'') (ascii ''beta'') (Some [0, 0]), score = NaN \<rparr>,
           \<lparr> chunk = exampleChunk (ascii ''c-0'') (ascii ''gamma'') (Some [1, 0]), score = Num 1 \<rparr>])
         \<le> - 1"
  by (simp add: zeroStore_search descending_def)

text \<open>
  Claim C4. For a query that matches none of the three keyword families, every returned
  result has the raw cosine similarity of the query embedding and the embedding of its
  chunk as its score, and the candidates are all the chunks with an embedding: the result
  is the sorted, truncated list of one such result per embedded chunk.
\<close>

theorem C4_plain_query_raw_similarity:
  assumes "\<not> isRecentQuery query" "\<not> isUpcomingQuery query" "\<not> isPastQuery query"
    and "searchSimilarChunks env svc now st query topK = Inr rs"
    and "getQueryEmbedding svc st query = Inr q"
  shows "(\<forall>r \<in> set rs. \<exists>e. embedding (chunk r) = Some e \<and> score r = cosineSimilarity q e)
       \<and> rs = slice0 (sortByScore
                (map (\<lambda>c. \<lparr> chunk = c, score = cosineSimilarity q (the (embedding c)) \<rparr>)
                   (filter (\<lambda>c. embedding c \<noteq> None) (chunks st)))) topK"
proof -
  have so: "\<And>c. scoreOf env now query q c =
      (case embedding c of None \<Rightarrow> None
       | Some e \<Rightarrow> Some \<lparr> chunk = c, score = cosineSimilarity q e \<rparr>)"
    using assms(1-3) by (simp add: scoreOf_def scoreChunk_def split: option.splits)
  have mf: "List.map_filter (scoreOf env now query q) cs =
            map (\<lambda>c. \<lparr> chunk = c, score = cosineSimilarity q (the (embedding c)) \<rparr>)
              (filter (\<lambda>c. embedding c \<noteq> None) cs)" for cs
    by (induction cs) (auto simp: List.map_filter_simps so split: option.splits)
  have eq: "rs = slice0 (sortByScore
                (map (\<lambda>c. \<lparr> chunk = c, score = cosineSimilarity q (the (embedding c)) \<rparr>)
                   (filter (\<lambda>c. embedding c \<noteq> None) (chunks st)))) topK"
    using scored_results [OF assms(4,5)] by (simp add: mf)
  have "\<forall>r \<in> set rs. \<exists>e. embedding (chunk r) = Some e \<and> score r = cosineSimilarity q e"
  proof
    fix r assume "r \<in> set rs"
    from result_origin [OF assms(4,5) this] have "scoreOf env now query q (chunk r) = Some r" by simp
    then obtain e where e: "embedding (chunk r) = Some e"
      and r: "r = \<lparr> chunk = chunk r, score = cosineSimilarity q e \<rparr>"
      by (auto simp: so split: option.splits)
    from r have "score r = score \<lparr> chunk = chunk r, score = cosineSimilarity q e \<rparr>" by simp
    then have "score r = cosineSimilarity q e" by simp
    with e show "\<exists>e. embedding (chunk r) = Some e \<and> score r = cosineSimilarity q e" by blast
  qed
  with eq show ?thesis by blast
qed

theorem C4_plain_query_raw_similarity_witness:
  "\<not> isRecentQuery plainQuery \<and> \<not> isUpcomingQuery plainQuery \<and> \<not> isPastQuery plainQuery
   \<and> searchSimilarChunks utcEnv exampleService exampleNow exampleStore plainQuery 5 =
     Inr [\<lparr> chunk = exampleChunk (ascii ''c-0'') (ascii ''gamma'') (Some [1, 0]),
            score = cosineSimilarity [1, 0] [1, 0] \<rparr>,
          \<lparr> chunk = exampleChunk (ascii ''a-0'') (ascii ''alpha'') (Some [0, 1]),
            score = cosineSimilarity [1, 0] [0, 1] \<rparr>]"
  using C4_plain_query_raw_similarity
          [OF plainQuery_class exampleStore_search exampleService_query(1), THEN conjunct1]
    plainQuery_class exampleStore_search
  by (simp add: cos_examples)

text \<open>
  Claim C10. The division in \<^verbatim>\<open>cosineSimilarity\<close> is not guarded: for inputs of equal
  length of which one is all zeros the result is \<^verbatim>\<open>NaN\<close>, and a returned search result
  whose chunk embedding, or the query embedding, is such a vector has the score
  \<^verbatim>\<open>NaN\<close>.
\<close>

theorem C10_zero_vector_NaN:
  "(length a = length b \<and> ((\<forall>x \<in> set a. x = 0) \<or> (\<forall>y \<in> set b. y = 0))
      \<longrightarrow> cosineSimilarity a b = NaN)
   \<and> (searchSimilarChunks env svc now st query topK = Inr rs
        \<and> getQueryEmbedding svc st query = Inr q
        \<and> r \<in> set rs \<and> embedding (chunk r) = Some e \<and> length q = length e
        \<and> ((\<forall>x \<in> set q. x = 0) \<or> (\<forall>y \<in> set e. y = 0))
      \<longrightarrow> score r = NaN)"
proof (intro conjI impI)
  assume "length a = length b \<and> ((\<forall>x \<in> set a. x = 0) \<or> (\<forall>y \<in> set b. y = 0))"
  then show "cosineSimilarity a b = NaN" by (simp add: cosineSimilarity_zero_vector)
next
  assume h: "searchSimilarChunks env svc now st query topK = Inr rs
        \<and> getQueryEmbedding svc st query = Inr q
        \<and> r \<in> set rs \<and> embedding (chunk r) = Some e \<and> length q = length e
        \<and> ((\<forall>x \<in> set q. x = 0) \<or> (\<forall>y \<in> set e. y = 0))"
  then have h1: "searchSimilarChunks env svc now st query topK = Inr rs"
    and h2: "getQueryEmbedding svc st query = Inr q"
    and h3: "r \<in> set rs" and h4: "embedding (chunk r) = Some e" and h5: "length q = length e"
    and h6: "(\<forall>x \<in> set q. x = 0) \<or> (\<forall>y \<in> set e. y = 0)"
    by simp_all
  from result_origin [OF h1 h2 h3] have "scoreOf env now query q (chunk r) = Some r" by simp
  from scoreOf_Some [OF this] h4
  have sc: "score r = cosineSimilarity q e \<or> score r = js_times (cosineSimilarity q e) (3 / 10)
            \<or> score r = js_times (cosineSimilarity q e) (12 / 10)
            \<or> score r = js_times (cosineSimilarity q e) (5 / 10)"
    by simp
  have "cosineSimilarity q e = NaN" using h5 h6 by (rule cosineSimilarity_zero_vector)
  with sc show "score r = NaN" by auto
qed

theorem C10_zero_vector_NaN_witness:
  "cosineSimilarity [1, 0] [0, 0] = NaN
   \<and> searchSimilarChunks utcEnv exampleService exampleNow zeroStore plainQuery (- 1) =
     Inr [\<lparr> chunk = exampleChunk (ascii ''a-0'') (ascii ''alpha'') (Some [0, 1]), score = Num 0 \<rparr>,
          \<lparr> chunk = exampleChunk (ascii ''b-0'') (ascii ''beta'') (Some [0, 0]), score = NaN \<rparr>,
          \<lparr> chunk = exampleChunk (ascii ''c-0'') (ascii ''gamma'') (Some [1, 0]), score = Num 1 \<rparr>]"
proof -
  have e: "embedding (exampleChunk a b c) = c" for a b c by (simp add: exampleChunk_def)
  from C10_zero_vector_NaN [where a = "[1, 0]" and b = "[0, 0]" and env = utcEnv
      and svc = exampleService and now = exampleNow and st = zeroStore and query = plainQuery
      and topK = "- 1" and q = "[1, 0]" and e = "[0, 0]"
      and r = "\<lparr> chunk = exampleChunk (ascii ''b-0'') (ascii ''beta'') (Some [0, 0]), score = NaN \<rparr>"
      and rs = "[\<lparr> chunk = exampleChunk (ascii ''a-0'') (ascii ''alpha'') (Some [0, 1]), score = Num 0 \<rparr>,
          \<lparr> chunk = exampleChunk (ascii ''b-0'') (ascii ''beta'') (Some [0, 0]), score = NaN \<rparr>,
          \<lparr> chunk = exampleChunk (ascii ''c-0'') (ascii ''gamma'') (Some [1, 0]), score = Num 1 \<rparr>]"]
    zeroStore_search exampleService_query(2)
  show ?thesis by (simp add: e)
qed

section \<open>Result formatter: results\<close>

lemma formatLoop_eq:
  "formatLoop big k rs ctx =
   ctx @ concat (map (\<lambda>i. specEntry big (k + i + 1) (rs ! i)) [0 ..< length rs])"
proof (induction rs arbitrary: k ctx)
  case Nil
  show ?case by simp
next
  case (Cons r rs)
  have "map (\<lambda>i. specEntry big (k + i + 1) ((r # rs) ! i)) [0 ..< length (r # rs)] =
        specEntry big (k + 1) r # map (\<lambda>i. specEntry big (Suc k + i + 1) (rs ! i)) [0 ..< length rs]"
    by (simp add: upt_rec [of 0] map_Suc_upt [symmetric] del: upt_Suc)
  then show ?case
    using Cons.IH [of "Suc k"] by (simp add: Let_def specEntry_def)
qed

lemma decimal_digit: "n < 10 \<Longrightarrow> decimal n = [48 + n]"
  by (subst decimal.simps) simp

lemma decimal_digits: "decimal n \<noteq> [] \<and> list_all isDigit (decimal n)"
proof (induction n rule: decimal.induct)
  case (1 n)
  show ?case
  proof (cases "n < 10")
    case True
    then show ?thesis by (subst (1 2) decimal.simps) (simp add: isDigit_def)
  next
    case False
    have "n mod 10 < 10" by simp
    then have "isDigit (48 + n mod 10)" unfolding isDigit_def by linarith
    with False "1" show ?thesis by (subst (1 2) decimal.simps) simp
  qed
qed

lemma oneDecimal_digits:
  assumes "ds \<noteq> []" "list_all isDigit ds" "isDigit d"
  shows "oneDecimal (ds @ [46, d])" and "oneDecimal (45 # ds @ [46, d])"
proof -
  obtain c cs where ds: "ds = c # cs" using assms(1) by (cases ds) auto
  with assms(2) have "isDigit c" by simp
  then have c: "c \<noteq> 45" by (auto simp: isDigit_def)
  have l: "length (ds @ [46, d]) - 2 = length ds" by simp
  have core: "3 \<le> length (ds @ [46, d]) \<and> list_all isDigit (take (length (ds @ [46, d]) - 2) (ds @ [46, d]))
        \<and> (ds @ [46, d]) ! (length (ds @ [46, d]) - 2) = 46 \<and> isDigit (last (ds @ [46, d]))"
    unfolding l using assms by (simp add: ds nth_append)
  show "oneDecimal (ds @ [46, d])"
    using core c unfolding oneDecimal_def by (simp add: ds)
  show "oneDecimal (45 # ds @ [46, d])"
    using core unfolding oneDecimal_def by simp
qed

lemma toFixed1_finite:
  assumes "\<bar>x\<bar> < 10 ^ 21"
  shows "oneDecimal (toFixed1 big (Num x))
       \<and> (\<exists>n. toFixed1 big (Num x) =
               (if x < 0 then ascii ''-'' else []) @ decimal (n div 10) @ ascii ''.'' @ [48 + n mod 10]
             \<and> \<bar>real n / 10 - \<bar>x\<bar>\<bar> \<le> 1 / 20)"
proof -
  let ?n = "nat \<lfloor>10 * \<bar>x\<bar> + 1 / 2\<rfloor>"
  have nn: "0 \<le> \<lfloor>10 * \<bar>x\<bar> + 1 / 2\<rfloor>" by simp
  have lo: "real_of_int \<lfloor>10 * \<bar>x\<bar> + 1 / 2\<rfloor> \<le> 10 * \<bar>x\<bar> + 1 / 2" by (rule of_int_floor_le)
  have hi: "10 * \<bar>x\<bar> + 1 / 2 < real_of_int \<lfloor>10 * \<bar>x\<bar> + 1 / 2\<rfloor> + 1" by linarith
  have rn: "real ?n = real_of_int \<lfloor>10 * \<bar>x\<bar> + 1 / 2\<rfloor>" using nn by simp
  have g: "f \<le> 10 * y + 1 / 2 \<Longrightarrow> 10 * y + 1 / 2 < f + 1 \<Longrightarrow> \<bar>f / 10 - y\<bar> \<le> 1 / 20"
    for f y :: real by linarith
  have near: "\<bar>real ?n / 10 - \<bar>x\<bar>\<bar> \<le> 1 / 20" unfolding rn using lo hi by (rule g)
  have "decimal (?n mod 10) = [48 + ?n mod 10]" by (subst decimal.simps) simp
  then have eq: "toFixed1 big (Num x) =
        (if x < 0 then ascii ''-'' else []) @ decimal (?n div 10) @ ascii ''.'' @ [48 + ?n mod 10]"
    using assms by (simp add: toFixed1_def Let_def)
  have "?n mod 10 < 10" by simp
  then have d: "isDigit (48 + ?n mod 10)" unfolding isDigit_def by linarith
  note od = oneDecimal_digits [OF decimal_digits [of "?n div 10", THEN conjunct1]
      decimal_digits [of "?n div 10", THEN conjunct2] d]
  have "oneDecimal (toFixed1 big (Num x))"
  proof (cases "x < 0")
    case True
    then have "toFixed1 big (Num x) = 45 # decimal (?n div 10) @ [46, 48 + ?n mod 10]"
      unfolding eq by (simp add: ascii_def)
    then show ?thesis by (simp only: od(2))
  next
    case False
    then have "toFixed1 big (Num x) = decimal (?n div 10) @ [46, 48 + ?n mod 10]"
      unfolding eq by (simp add: ascii_def)
    then show ?thesis by (simp only: od(1))
  qed
  with eq near show ?thesis by blast
qed

text \<open>
  Claim C9, as the code has it. The empty list is formatted as the fixed sentinel string;
  any other list as the header followed by one entry per result, numbered from 1, with the
  title, the raw content and the score times 100 as \<^verbatim>\<open>toFixed(1)\<close> prints it. Where that
  product is a finite number below \<open>10^21\<close> in size the print is a decimal numeral with one
  decimal place, the sign, the integer digits, a point and one digit, nearest to the
  product; for the scores \<^verbatim>\<open>NaN\<close>, \<^verbatim>\<open>Infinity\<close> and \<^verbatim>\<open>-Infinity\<close> it is that name. A
  result with the score \<^verbatim>\<open>NaN\<close>, which a search over a zero embedding returns, is
  formatted with \<^verbatim>\<open>NaN%\<close>, as the last instance shows.
\<close>

theorem C9_format:
  "formatSearchResults big [] = noResults
   \<and> formatSearchResults big rs = specFormat big rs
   \<and> (js_times s 100 = Num x \<and> \<bar>x\<bar> < 10 ^ 21 \<longrightarrow>
        oneDecimal (toFixed1 big (js_times s 100))
        \<and> (\<exists>n. toFixed1 big (js_times s 100) =
                 (if x < 0 then ascii ''-'' else []) @ decimal (n div 10) @ ascii ''.''
                 @ [48 + n mod 10]
               \<and> \<bar>real n / 10 - \<bar>x\<bar>\<bar> \<le> 1 / 20))
   \<and> (s = NaN \<longrightarrow> toFixed1 big (js_times s 100) = ascii ''NaN'')
   \<and> (s = PosInf \<longrightarrow> toFixed1 big (js_times s 100) = ascii ''Infinity'')
   \<and> (s = NegInf \<longrightarrow> toFixed1 big (js_times s 100) = ascii ''-Infinity'')"
proof (intro conjI impI)
  show "formatSearchResults big [] = noResults" by (simp add: formatSearchResults_def)
  show "formatSearchResults big rs = specFormat big rs"
    by (simp add: formatSearchResults_def specFormat_def formatLoop_eq)
next
  assume h: "js_times s 100 = Num x \<and> \<bar>x\<bar> < 10 ^ 21"
  then have "\<bar>x\<bar> < 10 ^ 21" by simp
  from toFixed1_finite [OF this, of big] h
  show "oneDecimal (toFixed1 big (js_times s 100))"
    and "\<exists>n. toFixed1 big (js_times s 100) =
                 (if x < 0 then ascii ''-'' else []) @ decimal (n div 10) @ ascii ''.''
                 @ [48 + n mod 10]
               \<and> \<bar>real n / 10 - \<bar>x\<bar>\<bar> \<le> 1 / 20"
    by simp_all
next
  assume "s = NaN"
  then show "toFixed1 big (js_times s 100) = ascii ''NaN''"
    by (simp add: js_times_def toFixed1_def)
next
  assume "s = PosInf"
  then show "toFixed1 big (js_times s 100) = ascii ''Infinity''"
    by (simp add: js_times_def toFixed1_def fl_examples)
next
  assume "s = NegInf"
  then show "toFixed1 big (js_times s 100) = ascii ''-Infinity''"
    by (simp add: js_times_def toFixed1_def fl_examples)
qed

lemma percent_examples:
  "fl (873 / 1000) = Num (3931642474694443 / 4503599627370496)"
  "js_times (Num (3931642474694443 / 4503599627370496)) 100
     = Num (6143191366710067 / 70368744177664)"
  "fl (3 / 2000) = Num (3458764513820541 / 2305843009213693952)"
  "js_times (Num (3458764513820541 / 2305843009213693952)) 100
     = Num (5404319552844595 / 36028797018963968)"
proof -
  show a: "fl (873 / 1000) = Num (3931642474694443 / 4503599627370496)"
    using fl_eval [of "- 1" "873 / 1000" "- 53" 7863284949388886] by (simp add: power_int_minus)
  show b: "fl (3 / 2000) = Num (3458764513820541 / 2305843009213693952)"
    using fl_eval [of "- 10" "3 / 2000" "- 62" 6917529027641082] by (simp add: power_int_minus)
  have c: "fl (98291061867361075 / 1125899906842624) = Num (6143191366710067 / 70368744177664)"
    using fl_eval [of 6 "98291061867361075 / 1125899906842624" "- 46" 6143191366710067]
    by (simp add: power_int_minus)
  show "js_times (Num (3931642474694443 / 4503599627370496)) 100
          = Num (6143191366710067 / 70368744177664)"
    by (simp add: js_times_def fl_examples c)
  have d: "fl (86469112845513525 / 576460752303423488) = Num (5404319552844595 / 36028797018963968)"
    using fl_eval [of "- 3" "86469112845513525 / 576460752303423488" "- 55" 5404319552844595]
    by (simp add: power_int_minus)
  show "js_times (Num (3458764513820541 / 2305843009213693952)) 100
          = Num (5404319552844595 / 36028797018963968)"
    by (simp add: js_times_def fl_examples d)
qed

lemma toFixed1_examples:
  "toFixed1 big (Num (6143191366710067 / 70368744177664)) = ascii ''87.3''"
  "toFixed1 big (Num (5404319552844595 / 36028797018963968)) = ascii ''0.1''"
proof -
  have f: "\<lfloor>10 * \<bar>6143191366710067 / 70368744177664 :: real\<bar> + 1 / 2\<rfloor> = 873"
    "\<lfloor>10 * \<bar>5404319552844595 / 36028797018963968 :: real\<bar> + 1 / 2\<rfloor> = 1"
    by (simp_all add: floor_unique)
  have d: "decimal 87 = [56, 55]" "decimal 3 = [51]" "decimal 0 = [48]" "decimal (Suc 0) = [49]"
    using decimal.simps [of 87] decimal_digit [of 8] decimal_digit [of 3] decimal_digit [of 0]
      decimal_digit [of 1]
    by simp_all
  show "toFixed1 big (Num (6143191366710067 / 70368744177664)) = ascii ''87.3''"
    unfolding toFixed1_def by (simp add: f d ascii_def Let_def)
  show "toFixed1 big (Num (5404319552844595 / 36028797018963968)) = ascii ''0.1''"
    unfolding toFixed1_def by (simp add: f d ascii_def Let_def)
qed

theorem C9_format_witness:
  "js_times (score scoredResult) 100 = Num (6143191366710067 / 70368744177664)
   \<and> toFixed1 (\<lambda>r. []) (js_times (score scoredResult) 100) = ascii ''87.3''
   \<and> oneDecimal (ascii ''87.3'')
   \<and> toFixed1 (\<lambda>r. []) (js_times (score roundedResult) 100) = ascii ''0.1''
   \<and> formatSearchResults (\<lambda>r. []) [scoredResult, roundedResult] =
        header @ ascii ''[1] T'' @ [10] @ ascii ''alpha'' @ [10]
        @ ascii ''('' @ similarityLabel @ ascii '': 87.3%)'' @ [10, 10]
        @ ascii ''[2] T'' @ [10] @ ascii ''beta'' @ [10]
        @ ascii ''('' @ similarityLabel @ ascii '': 0.1%)'' @ [10, 10]"
proof -
  have s: "js_times (score scoredResult) 100 = Num (6143191366710067 / 70368744177664)"
    "js_times (score roundedResult) 100 = Num (5404319552844595 / 36028797018963968)"
    by (simp_all add: scoredResult_def roundedResult_def percent_examples)
  have d: "decimal (Suc 0) = [49]" "decimal (Suc (Suc 0)) = [50]"
    using decimal_digit [of "Suc 0"] decimal_digit [of "Suc (Suc 0)"] by simp_all
  from C9_format [of "\<lambda>r. []" "[scoredResult, roundedResult]" "score scoredResult"
      "6143191366710067 / 70368744177664"] s(1)
  have one: "oneDecimal (toFixed1 (\<lambda>r. []) (js_times (score scoredResult) 100))"
    and fmt: "formatSearchResults (\<lambda>r. []) [scoredResult, roundedResult]
              = specFormat (\<lambda>r. []) [scoredResult, roundedResult]"
    by simp_all
  have "specFormat (\<lambda>r. []) [scoredResult, roundedResult] =
        header @ ascii ''[1] T'' @ [10] @ ascii ''alpha'' @ [10]
        @ ascii ''('' @ similarityLabel @ ascii '': 87.3%)'' @ [10, 10]
        @ ascii ''[2] T'' @ [10] @ ascii ''beta'' @ [10]
        @ ascii ''('' @ similarityLabel @ ascii '': 0.1%)'' @ [10, 10]"
    by (simp add: specFormat_def specEntry_def s toFixed1_examples d upt_rec [of 0] upt_rec [of 1])
       (simp add: scoredResult_def roundedResult_def exampleChunk_def ascii_def)
  with one fmt s show ?thesis by (simp add: toFixed1_examples)
qed

theorem C9_counterexample:
  "cosineSimilarity [1, 0] [0, 0] = NaN
   \<and> formatSearchResults (\<lambda>r. [])
        [\<lparr> chunk = exampleChunk (ascii ''b-0'') (ascii ''beta'') (Some [0, 0]),
           score = cosineSimilarity [1, 0] [0, 0] \<rparr>] =
        header @ ascii ''[1] T'' @ [10] @ ascii ''beta'' @ [10]
        @ ascii ''('' @ similarityLabel @ ascii '': NaN%)'' @ [10, 10]
   \<and> \<not> oneDecimal (ascii ''NaN'')"
proof -
  have d: "decimal (Suc 0) = [49]" using decimal_digit [of 1] by simp
  have "formatSearchResults (\<lambda>r. [])
        [\<lparr> chunk = exampleChunk (ascii ''b-0'') (ascii ''beta'') (Some [0, 0]), score = NaN \<rparr>] =
        header @ ascii ''[1] T'' @ [10] @ ascii ''beta'' @ [10]
        @ ascii ''('' @ similarityLabel @ ascii '': NaN%)'' @ [10, 10]"
    by (simp add: formatSearchResults_def js_times_def toFixed1_def d exampleChunk_def ascii_def)
  moreover have "\<not> oneDecimal (ascii ''NaN'')"
    by (simp add: oneDecimal_def ascii_def isDigit_def Let_def)
  ultimately show ?thesis by (simp add: cos_examples)
qed

section \<open>Index store: results\<close>

lemma inSync_nth:
  "inSync st \<longleftrightarrow> (\<forall>j < length (chunks st). \<forall>e. embedding (chunks st ! j) = Some e \<longrightarrow>
                     map_of (embeddings st) (id (chunks st ! j)) = Some e)"
  unfolding inSync_def by (metis in_set_conv_nth)

lemma store_step:
  fixes v :: "real list"
  assumes k: "k < length (chunks st)"
    and d: "distinctIds st" and w: "wellFormed st" and s: "inSync st"
  defines "st2 \<equiv> st \<lparr> embeddings := AList.update (id (chunks st ! k)) v (embeddings st),
                       chunks := (chunks st) [k := (chunks st ! k) \<lparr> embedding := Some v \<rparr>] \<rparr>"
  shows "map id (chunks st2) = map id (chunks st)" and "wellFormed st2" and "inSync st2"
proof -
  show ids: "map id (chunks st2) = map id (chunks st)"
    using k by (simp add: st2_def map_update list_update_same_conv)
  show "wellFormed st2"
    using w by (simp add: wellFormed_def st2_def distinct_update)
  show "inSync st2"
    unfolding inSync_nth
  proof (intro allI impI)
    fix j e assume j: "j < length (chunks st2)" and e: "embedding (chunks st2 ! j) = Some e"
    have j': "j < length (chunks st)" using j by (simp add: st2_def)
    show "map_of (embeddings st2) (id (chunks st2 ! j)) = Some e"
    proof (cases "j = k")
      case True
      then show ?thesis using e k by (simp add: st2_def update_conv')
    next
      case False
      then have same: "chunks st2 ! j = chunks st ! j"
        and same': "(chunks st) [k := (chunks st ! k) \<lparr> embedding := Some v \<rparr>] ! j = chunks st ! j"
        by (simp_all add: st2_def)
      have "id (chunks st ! j) \<noteq> id (chunks st ! k)"
        using d False j' k by (simp add: distinctIds_def distinct_conv_nth)
      moreover have "map_of (embeddings st) (id (chunks st ! j)) = Some e"
        using s e j' same unfolding inSync_nth by simp
      ultimately show ?thesis by (simp add: st2_def update_conv' same')
    qed
  qed
qed

lemma storeEmbeddings_inv:
  assumes "storeEmbeddings i n index vs st = (r, st')"
    and "i + n \<le> length (chunks st)"
    and "distinctIds st" "wellFormed st" "inSync st"
  shows "map id (chunks st') = map id (chunks st) \<and> wellFormed st' \<and> inSync st'"
  using assms
proof (induction vs arbitrary: index st)
  case Nil
  then show ?case by simp
next
  case (Cons v vs)
  show ?case
  proof (cases "index < n")
    case False
    with Cons.prems show ?thesis by simp
  next
    case True
    let ?k = "i + index"
    let ?st2 = "st \<lparr> embeddings := AList.update (id (chunks st ! ?k)) v (embeddings st),
                      chunks := (chunks st) [?k := (chunks st ! ?k) \<lparr> embedding := Some v \<rparr>] \<rparr>"
    have k: "?k < length (chunks st)" using True Cons.prems(2) by simp
    note step = store_step [OF k Cons.prems(3,4,5), of v]
    have rec: "storeEmbeddings i n (index + 1) vs ?st2 = (r, st')"
      using Cons.prems(1) True by (simp add: Let_def)
    have len: "i + n \<le> length (chunks ?st2)" using Cons.prems(2) by simp
    have d2: "distinctIds ?st2" using step(1) Cons.prems(3) by (simp add: distinctIds_def)
    from Cons.IH [OF rec len d2 step(2) step(3)] step(1)
    show ?thesis by simp
  qed
qed

lemma embedLoop_inv:
  assumes "distinctIds st" "wellFormed st" "inSync st"
  shows "wellFormed (snd (embedLoop svc i st)) \<and> inSync (snd (embedLoop svc i st))"
  using assms
proof (induction svc i st rule: embedLoop.induct)
  case (1 svc i st)
  show ?case
  proof (cases "i < length (chunks st)")
    case False
    then have "embedLoop svc i st = (None, st)" by (subst embedLoop.simps) simp
    with "1.prems" show ?thesis by simp
  next
    case True
    note lt = True
    show ?thesis
    proof (cases "openai st = None")
      case True
      with lt have "embedLoop svc i st = (Some NotInitialized, st)"
        by (subst embedLoop.simps) (simp add: Let_def)
      with "1.prems" show ?thesis by simp
    next
      case False
      note op = False
      let ?batch = "take batchSize (drop i (chunks st))"
      show ?thesis
      proof (cases "svc (map content ?batch)")
        case (Inl e)
        with lt have "embedLoop svc i st = (Some e, st)"
          by (subst embedLoop.simps) (simp add: Let_def op)
        with "1.prems" show ?thesis by simp
      next
        case (Inr vs)
        obtain r st' where se: "storeEmbeddings i (length ?batch) 0 vs st = (r, st')"
          by (cases "storeEmbeddings i (length ?batch) 0 vs st") auto
        have "i + length ?batch \<le> length (chunks st)" using lt by simp
        from storeEmbeddings_inv [OF se this "1.prems"]
        have ids: "map id (chunks st') = map id (chunks st)" and w: "wellFormed st'" and s: "inSync st'"
          by simp_all
        have d: "distinctIds st'" using ids "1.prems"(1) by (simp add: distinctIds_def)
        show ?thesis
        proof (cases r)
          case (Some e)
          have "embedLoop svc i st = (Some e, st')"
            using lt Inr se Some by (subst embedLoop.simps) (simp add: Let_def op)
          with w s show ?thesis by simp
        next
          case None
          have eq: "embedLoop svc i st = embedLoop svc (i + batchSize) st'"
            using lt Inr se None by (subst embedLoop.simps) (simp add: Let_def op)
          from "1.IH" [OF lt refl refl op Inr se [symmetric] None d w s]
          show ?thesis by (simp add: eq)
        qed
      qed
    qed
  qed
qed

lemma newMap_distinct:
  assumes "distinct (map fst pairs)"
  shows "newMap pairs = pairs"
proof -
  have "distinct (map fst (acc @ ps)) \<Longrightarrow>
        foldl (\<lambda>m (k, v). AList.update k v m) acc ps = acc @ ps" for acc ps :: "(jsstring \<times> real list) list"
  proof (induction ps arbitrary: acc)
    case Nil
    show ?case by simp
  next
    case (Cons p ps)
    obtain k v where p: "p = (k, v)" by (cases p) auto
    have "k \<notin> fst ` set acc" using Cons.prems by (auto simp: p)
    then have u: "AList.update k v acc = acc @ [(k, v)]"
      by (induction acc) auto
    have "distinct (map fst ((acc @ [(k, v)]) @ ps))" using Cons.prems by (simp add: p)
    from Cons.IH [OF this] show ?case by (simp add: p u)
  qed
  from this [of "[]" pairs] assms show ?thesis by (simp add: newMap_def)
qed

lemma splitLoop_no_embedding:
  "\<forall>c \<in> set acc. embedding c = None \<Longrightarrow>
   \<forall>c \<in> set (splitLoop meta page str s k acc). embedding c = None"
proof (induction meta page str s k acc rule: splitLoop.induct)
  case (1 meta page str s k acc)
  show ?case
  proof (cases "s < length str")
    case True
    have "\<forall>c \<in> set (acc @ [mkChunk meta page k (ceil_div (length str) (chunkSize - overlap))
              (substring str s (min (s + chunkSize) (length str)))]). embedding c = None"
      using "1.prems" by (simp add: mkChunk_def)
    from "1.IH" [OF True refl refl this] True show ?thesis
      by (subst splitLoop.simps) (simp add: Let_def)
  next
    case False
    with "1.prems" show ?thesis by (subst splitLoop.simps) simp
  qed
qed

lemma splitIntoChunks_no_embedding:
  "\<forall>c \<in> set (splitIntoChunks nowISO str ttl page). embedding c = None"
  using splitLoop_no_embedding [of "[]"]
  by (simp add: splitIntoChunks_def Let_def mkChunk_def)

lemma processLoop_no_embedding:
  "\<forall>c \<in> set acc. embedding c = None \<Longrightarrow>
   \<forall>c \<in> set (processLoop render nowISO ps acc). embedding c = None"
proof (induction ps arbitrary: acc)
  case Nil
  then show ?case by simp
next
  case (Cons p ps)
  have "\<forall>c \<in> set (acc @ splitIntoChunks nowISO (extractTextContent render p)
            (or_else (page_title p) (ascii ''Untitled'')) p). embedding c = None"
    using Cons.prems splitIntoChunks_no_embedding by auto
  from Cons.IH [OF this] show ?case by (simp add: Let_def)
qed

lemma decimal_0: "decimal 0 = [48]"
  by (subst decimal.simps) simp

lemma duplicateIdStore_eq:
  "duplicateIdStore =
     \<lparr> chunks = [mkChunk (pageMetadata [] (ascii ''Untitled'') (pageWithoutId (ascii ''first'')))
                   (pageWithoutId (ascii ''first'')) 0 1 (ascii ''first''),
                 mkChunk (pageMetadata [] (ascii ''Untitled'') (pageWithoutId (ascii ''second'')))
                   (pageWithoutId (ascii ''second'')) 0 1 (ascii ''second'')],
       embeddings = [], openai = Some (ascii ''key'') \<rparr>"
proof -
  have t: "truthy (Some (ascii ''first''))" "truthy (Some (ascii ''second''))"
    by (simp_all add: truthy_def ascii_def)
  have l: "length (ascii ''first'') \<le> chunkSize" "length (ascii ''second'') \<le> chunkSize"
    by (simp_all add: ascii_def chunkSize_def)
  show ?thesis
    by (simp add: duplicateIdStore_def processNotionData_def initializeOpenAI_def newRAGSystem_def
        extractTextContent_def pageWithoutId_def t l splitIntoChunks_def or_else_def Let_def)
qed

lemma duplicateIdStore_ids:
  "map id (chunks duplicateIdStore) = [ascii ''chunk-0'', ascii ''chunk-0'']"
  by (simp add: duplicateIdStore_eq mkChunk_def pageWithoutId_def or_else_def decimal_0 ascii_def)

lemma duplicateIdStore_generate:
  "fst (generateEmbeddings twoVectorService duplicateIdStore) = None"
  "map embedding (chunks (snd (generateEmbeddings twoVectorService duplicateIdStore)))
     = [Some [1, 0], Some [0, 1]]"
  "map id (chunks (snd (generateEmbeddings twoVectorService duplicateIdStore)))
     = [ascii ''chunk-0'', ascii ''chunk-0'']"
  "embeddings (snd (generateEmbeddings twoVectorService duplicateIdStore))
     = [(ascii ''chunk-0'', [0, 1])]"
proof -
  have i: "id (mkChunk m p 0 n t) = or_else (page_id p) (ascii ''chunk'') @ ascii ''-0''" for m p n t
    by (simp add: mkChunk_def decimal_0 ascii_def)
  have g: "generateEmbeddings twoVectorService duplicateIdStore =
     (None, \<lparr> chunks = [(mkChunk (pageMetadata [] (ascii ''Untitled'') (pageWithoutId (ascii ''first'')))
                   (pageWithoutId (ascii ''first'')) 0 1 (ascii ''first'')) \<lparr> embedding := Some [1, 0] \<rparr>,
                 (mkChunk (pageMetadata [] (ascii ''Untitled'') (pageWithoutId (ascii ''second'')))
                   (pageWithoutId (ascii ''second'')) 0 1 (ascii ''second'')) \<lparr> embedding := Some [0, 1] \<rparr>],
       embeddings = [(ascii ''chunk-0'', [0, 1])], openai = Some (ascii ''key'') \<rparr>)"
    unfolding generateEmbeddings_def duplicateIdStore_eq
    by (simp add: embedLoop.simps batchSize_def twoVectorService_def Let_def i
        pageWithoutId_def or_else_def ascii_def)
  show "fst (generateEmbeddings twoVectorService duplicateIdStore) = None"
    "map embedding (chunks (snd (generateEmbeddings twoVectorService duplicateIdStore)))
     = [Some [1, 0], Some [0, 1]]"
    "map id (chunks (snd (generateEmbeddings twoVectorService duplicateIdStore)))
     = [ascii ''chunk-0'', ascii ''chunk-0'']"
    "embeddings (snd (generateEmbeddings twoVectorService duplicateIdStore))
     = [(ascii ''chunk-0'', [0, 1])]"
    unfolding g by (simp_all add: i pageWithoutId_def or_else_def ascii_def)
qed

text \<open>
  Claim C8, as the code has it. The invariant (the map has one entry per key, and every
  chunk that carries an embedding finds that same vector under its id in the map) holds
  for a new system and is kept by \<^verbatim>\<open>initializeOpenAI\<close>, by \<^verbatim>\<open>processNotionData\<close>, by
  \<^verbatim>\<open>generateEmbeddings\<close> (whether it completes or aborts) provided the chunk ids are
  pairwise distinct, and by a load of a snapshot that a save has written, which also
  restores the chunks and the map as they were. Two pages without an id both give the
  chunk id \<open>chunk-0\<close>; then the second vector overwrites the map entry of the first
  chunk, as the last instance shows.
\<close>

theorem C8_dual_bookkeeping:
  "invariant newRAGSystem
   \<and> (invariant st \<longrightarrow> invariant (initializeOpenAI apiKey st))
   \<and> (invariant st \<longrightarrow> invariant (processNotionData render nowISO pages st))
   \<and> (invariant st \<and> distinctIds st \<longrightarrow> invariant (snd (generateEmbeddings svc st)))
   \<and> (invariant st \<longrightarrow>
        loadFromLocalStorage (saveToLocalStorage nowISO True st file) st0
          = (True, st0 \<lparr> chunks := chunks st, embeddings := embeddings st \<rparr>)
        \<and> invariant (snd (loadFromLocalStorage (saveToLocalStorage nowISO True st file) st0)))"
proof (intro conjI impI)
  show "invariant newRAGSystem"
    by (simp add: invariant_def wellFormed_def inSync_def newRAGSystem_def)
  show "invariant (initializeOpenAI apiKey st)" if "invariant st"
    using that by (simp add: invariant_def wellFormed_def inSync_def initializeOpenAI_def)
  show "invariant (processNotionData render nowISO pages st)" if "invariant st"
    using that processLoop_no_embedding [of "[]" render nowISO pages]
    by (simp add: invariant_def wellFormed_def inSync_def processNotionData_def)
  show "invariant (snd (generateEmbeddings svc st))" if "invariant st \<and> distinctIds st"
    using that embedLoop_inv [of st svc 0] by (simp add: invariant_def generateEmbeddings_def)
  assume i: "invariant st"
  then have "newMap (embeddings st) = embeddings st"
    by (simp add: invariant_def wellFormed_def newMap_distinct)
  then show l: "loadFromLocalStorage (saveToLocalStorage nowISO True st file) st0
          = (True, st0 \<lparr> chunks := chunks st, embeddings := embeddings st \<rparr>)"
    by (simp add: loadFromLocalStorage_def saveToLocalStorage_def)
  show "invariant (snd (loadFromLocalStorage (saveToLocalStorage nowISO True st file) st0))"
    using i unfolding l by (simp add: invariant_def wellFormed_def inSync_def)
qed

theorem C8_dual_bookkeeping_witness:
  "invariant singlePageStore \<and> distinctIds singlePageStore
   \<and> invariant (snd (generateEmbeddings exampleService singlePageStore))
   \<and> fst (loadFromLocalStorage
            (saveToLocalStorage [] True (snd (generateEmbeddings exampleService singlePageStore)) None)
            newRAGSystem)
   \<and> invariant (snd (loadFromLocalStorage
            (saveToLocalStorage [] True (snd (generateEmbeddings exampleService singlePageStore)) None)
            newRAGSystem))"
proof -
  have a: "invariant (initializeOpenAI (ascii ''key'') newRAGSystem)"
    using C8_dual_bookkeeping [of newRAGSystem "ascii ''key''"] by blast
  have b: "invariant singlePageStore"
    unfolding singlePageStore_def
    using a C8_dual_bookkeeping [of "initializeOpenAI (ascii ''key'') newRAGSystem" _ "\<lambda>p. []" "[]" "[examplePage]"]
    by blast
  have l: "length (ascii ''hello'') \<le> chunkSize" by (simp add: ascii_def chunkSize_def)
  have c: "distinctIds singlePageStore"
    by (simp add: singlePageStore_def distinctIds_def processNotionData_def examplePage_def
        extractTextContent_def truthy_def splitIntoChunks_def l Let_def)
  from b c C8_dual_bookkeeping [of singlePageStore _ _ _ _ exampleService]
  have d: "invariant (snd (generateEmbeddings exampleService singlePageStore))" by blast
  from d C8_dual_bookkeeping [where st = "snd (generateEmbeddings exampleService singlePageStore)"
      and nowISO = "[]" and ?file = None and ?st0.0 = newRAGSystem]
  have "loadFromLocalStorage
            (saveToLocalStorage [] True (snd (generateEmbeddings exampleService singlePageStore)) None)
            newRAGSystem
          = (True, newRAGSystem \<lparr> chunks := chunks (snd (generateEmbeddings exampleService singlePageStore)),
                embeddings := embeddings (snd (generateEmbeddings exampleService singlePageStore)) \<rparr>)
        \<and> invariant (snd (loadFromLocalStorage
            (saveToLocalStorage [] True (snd (generateEmbeddings exampleService singlePageStore)) None)
            newRAGSystem))" (is "?L = ?R \<and> ?I") by blast
  then have l: "?L = ?R" and e2: "?I" by blast+
  from l have e1: "fst (loadFromLocalStorage
            (saveToLocalStorage [] True (snd (generateEmbeddings exampleService singlePageStore)) None)
            newRAGSystem)"
    by simp
  from b c d e1 e2 show ?thesis by blast
qed

theorem C8_counterexample:
  "invariant duplicateIdStore
   \<and> map id (chunks duplicateIdStore) = [ascii ''chunk-0'', ascii ''chunk-0'']
   \<and> fst (generateEmbeddings twoVectorService duplicateIdStore) = None
   \<and> map id (chunks (snd (generateEmbeddings twoVectorService duplicateIdStore)))
       = [ascii ''chunk-0'', ascii ''chunk-0'']
   \<and> map embedding (chunks (snd (generateEmbeddings twoVectorService duplicateIdStore)))
       = [Some [1, 0], Some [0, 1]]
   \<and> embeddings (snd (generateEmbeddings twoVectorService duplicateIdStore))
       = [(ascii ''chunk-0'', [0, 1])]
   \<and> \<not> invariant (snd (generateEmbeddings twoVectorService duplicateIdStore))"
proof -
  have inv0: "invariant duplicateIdStore"
    by (simp add: duplicateIdStore_eq invariant_def wellFormed_def inSync_def mkChunk_def)
  let ?st = "snd (generateEmbeddings twoVectorService duplicateIdStore)"
  have "\<not> inSync ?st"
  proof
    assume s: "inSync ?st"
    have len: "length (chunks ?st) = 2"
      using duplicateIdStore_generate(2) by (metis length_map length_Cons list.size(3) numeral_2_eq_2)
    have e0: "embedding (chunks ?st ! 0) = Some [1, 0]"
      using duplicateIdStore_generate(2) len by (metis nth_map nth_Cons_0 zero_less_numeral)
    have i0: "id (chunks ?st ! 0) = ascii ''chunk-0''"
      using duplicateIdStore_generate(3) len by (metis nth_map nth_Cons_0 zero_less_numeral)
    from s e0 len have "map_of (embeddings ?st) (id (chunks ?st ! 0)) = Some [1, 0]"
      unfolding inSync_nth by simp
    then show False by (simp add: i0 duplicateIdStore_generate(4))
  qed
  then have "\<not> invariant ?st" by (simp add: invariant_def)
  with inv0 duplicateIdStore_ids duplicateIdStore_generate show ?thesis by simp
qed

end
